theory Spec2Isabelle
  imports Main "HOL-Library.Sublist" "HOL-Library.Char_ord" "HOL-Library.List_Lexorder"
begin

section \<open>Data model of the Router (class GoldfishRouter)\<close>

text \<open>
  JSON values the Router never inspects are kept as their JSON text. A payload is only
  tested for truthiness and measured by \<^verbatim>\<open>JSON.stringify(payload).length\<close>:
  \<open>Falsy\<close> stands for an absent or falsy payload, \<open>Truthy j\<close> for a truthy payload whose
  JSON text is \<open>j\<close>. Request fields \<^verbatim>\<open>actorType\<close> and \<^verbatim>\<open>actorId\<close> are strings when
  present; \<open>None\<close> is JavaScript's \<^verbatim>\<open>undefined\<close>.
\<close>

type_synonym json = string

datatype payload = Falsy | Truthy json

record policy =
  queueLimit :: nat
  timeoutMs :: nat
  maxPayloadBytes :: nat

record message =
  messageId :: nat
  payload :: payload
  enqueuedAt :: nat

record actor_state =
  actorKey :: string
  actorType :: "string option"
  actorId :: "string option"
  busy :: bool
  queue :: "message list"
  policy :: policy

text \<open>The durable metadata snapshot written by \<^verbatim>\<open>persistActorState\<close>.\<close>

record meta =
  meta_busy :: bool
  meta_queueLength :: nat
  meta_actorType :: "string option"
  meta_actorId :: "string option"
  meta_updatedAt :: nat

text \<open>
  The error messages the Router produces: \<^verbatim>\<open>"Payload too large"\<close>, \<^verbatim>\<open>"Queue is full"\<close>,
  \<^verbatim>\<open>"Processing timeout"\<close>, \<^verbatim>\<open>"Actor DO error: <status>"\<close> and
  \<^verbatim>\<open>"Message rejected by actor"\<close>.
\<close>

datatype err_msg =
  PayloadTooLarge | QueueIsFull | ProcessingTimeout | ActorDOError nat | MessageRejectedByActor

text \<open>
  Response bodies: a plain text, \<^verbatim>\<open>{ok: true, result: {result, actorKey}}\<close>, or
  \<^verbatim>\<open>{ok: false, error}\<close>. A response is a status code with a body.
\<close>

datatype resp_body = Text string | OkBody "json option" string | ErrBody err_msg

datatype response = Resp nat resp_body

text \<open>
  The envelope returned by the actor's \<^verbatim>\<open>/invoke\<close>. Every field may be absent; a
  field that is present has the type the actor gives it (\<^verbatim>\<open>nextPolicy\<close> an object whose
  \<^verbatim>\<open>mode\<close> is a string, \<^verbatim>\<open>spawn\<close> an array of strings).
\<close>

record next_policy =
  mode :: "string option"
  redirectTo :: "string option"

record envelope =
  result :: "json option"
  nextPolicy :: "next_policy option"
  spawn :: "string list option"

text \<open>
  How the awaited \<^verbatim>\<open>actorStub.fetch\<close> (with \<^verbatim>\<open>resp.json()\<close>) settles: the call
  throws, answers with a non-success status, or answers with an envelope.
\<close>

datatype invoke_outcome = Threw | NotOk nat | Ok envelope

text \<open>
  A \<^verbatim>\<open>drainLoop\<close> coroutine is suspended at one of its \<^verbatim>\<open>await\<close>s: inside
  \<^verbatim>\<open>processActorQueue\<close> for the entry at iterator position \<open>i\<close> with key \<open>k\<close>, waiting
  for the actor's answer to message \<open>m\<close> or for \<^verbatim>\<open>storage.put\<close>; or it has settled
  and its \<^verbatim>\<open>.finally\<close> callback has not run yet.
\<close>

datatype drain_pc = AwaitInvoke nat string message | AwaitPersist nat string | Finished

text \<open>
  The Router instance. \<^verbatim>\<open>this.actors\<close> is a JavaScript \<^verbatim>\<open>Map\<close>: \<open>actorOrder\<close> is its
  insertion order and \<open>actors\<close> its lookup. \<open>pendingResults\<close> holds the message ids that
  have a resolver registered. \<open>storage\<close> is the durable store, listed in key order.
  \<open>tasks\<close> are the suspended \<^verbatim>\<open>drainLoop\<close> coroutines. \<open>nextUuid\<close> is the supply behind
  \<^verbatim>\<open>crypto.randomUUID()\<close>, which never repeats. The last four fields record what the
  Router did: the messages accepted per key, the \<^verbatim>\<open>/invoke\<close> calls issued per actor
  key, the responses given to route calls that had been admitted, and the actor keys
  whose activation was asked to \<^verbatim>\<open>/admin-reset\<close>.
\<close>

record router =
  actorOrder :: "string list"
  actors :: "string \<rightharpoonup> actor_state"
  pendingResults :: "nat list"
  isDraining :: bool
  storage :: "(string \<times> meta) list"
  tasks :: "drain_pc list"
  nextUuid :: nat
  enqueueLog :: "string \<Rightarrow> message list"
  invokeLog :: "string \<Rightarrow> message list"
  settled :: "(nat \<times> response) list"
  resetLog :: "string list"

definition init :: "(string \<times> meta) list \<Rightarrow> router" where
  "init st = \<lparr>actorOrder = [], actors = Map.empty, pendingResults = [], isDraining = False,
     storage = st, tasks = [], nextUuid = 0, enqueueLog = (\<lambda>_. []), invokeLog = (\<lambda>_. []),
     settled = [], resetLog = []\<rparr>"

section \<open>Durable store\<close>

text \<open>\<^verbatim>\<open>storage.put\<close>, \<^verbatim>\<open>storage.delete\<close> and \<^verbatim>\<open>storage.list({prefix})\<close> on a store
  kept in key order.\<close>

fun storage_put :: "string \<Rightarrow> 'v \<Rightarrow> (string \<times> 'v) list \<Rightarrow> (string \<times> 'v) list" where
  "storage_put k v [] = [(k, v)]"
| "storage_put k v ((k', v') # xs) =
     (if k = k' then (k, v) # xs
      else if k < k' then (k, v) # (k', v') # xs
      else (k', v') # storage_put k v xs)"

definition storage_delete :: "string \<Rightarrow> (string \<times> 'v) list \<Rightarrow> (string \<times> 'v) list" where
  "storage_delete k xs = filter (\<lambda>e. fst e \<noteq> k) xs"

definition storage_list :: "string \<Rightarrow> (string \<times> 'v) list \<Rightarrow> (string \<times> 'v) list" where
  "storage_list p xs = filter (\<lambda>e. prefix p (fst e)) xs"

section \<open>Router operations\<close>

definition default_policy :: policy where
  "default_policy = \<lparr>queueLimit = 100, timeoutMs = 30000, maxPayloadBytes = 64 * 1024\<rparr>"

text \<open>A template literal \<^verbatim>\<open>`${x}`\<close> of a string that may be \<^verbatim>\<open>undefined\<close>.\<close>

definition template :: "string option \<Rightarrow> string" where
  "template x = (case x of None \<Rightarrow> ''undefined'' | Some s \<Rightarrow> s)"

text \<open>
  \<^verbatim>\<open>const pending = this.pendingResults.get(id); if (pending) { pending.resolve/reject(..);
  this.pendingResults.delete(id) }\<close>: the waiting route call answers with \<open>r\<close>.
\<close>

definition settle :: "nat \<Rightarrow> response \<Rightarrow> router \<Rightarrow> router" where
  "settle mid r s =
     (if mid \<in> set (pendingResults s)
      then s\<lparr>settled := settled s @ [(mid, r)],
             pendingResults := removeAll mid (pendingResults s)\<rparr>
      else s)"

text \<open>
  \<^verbatim>\<open>persistActorState\<close>, with \<^verbatim>\<open>Date.now()\<close> given. The write is visible in the
  store from the call on; the \<^verbatim>\<open>await\<close> on it ends later.
\<close>

definition persistActorState :: "nat \<Rightarrow> actor_state \<Rightarrow> router \<Rightarrow> router" where
  "persistActorState now a s =
     s\<lparr>storage := storage_put (''meta:'' @ actorKey a)
          \<lparr>meta_busy = busy a, meta_queueLength = length (queue a),
           meta_actorType = actorType a, meta_actorId = actorId a, meta_updatedAt = now\<rparr>
          (storage s)\<rparr>"

text \<open>
  The head of the \<^verbatim>\<open>while (actorState.queue.length > 0)\<close> loop of
  \<^verbatim>\<open>processActorQueue\<close>, run up to the next \<^verbatim>\<open>await\<close>: either the call to the actor
  for \<^verbatim>\<open>queue[0]\<close> or, after the loop, the call to \<^verbatim>\<open>persistActorState\<close>. \<open>a\<close> is the
  current content of the entry with key \<open>k\<close>.
\<close>

definition whileLoop :: "nat \<Rightarrow> nat \<Rightarrow> string \<Rightarrow> actor_state \<Rightarrow> router \<Rightarrow> router \<times> drain_pc" where
  "whileLoop now i k a s =
     (case queue a of
        message # _ \<Rightarrow>
          (s\<lparr>invokeLog := (invokeLog s)(actorKey a := invokeLog s (actorKey a) @ [message])\<rparr>,
           AwaitInvoke i k message)
      | [] \<Rightarrow> (persistActorState now a s, AwaitPersist i k))"

text \<open>
  \<^verbatim>\<open>processActorQueue\<close> up to its first \<^verbatim>\<open>await\<close>; \<open>None\<close> when it returns at once.
  (An iterator position always denotes an entry of the map; the \<open>None\<close> case of the lookup
  does not arise.)
\<close>

definition processActorQueue :: "nat \<Rightarrow> nat \<Rightarrow> string \<Rightarrow> router \<Rightarrow> router \<times> drain_pc option" where
  "processActorQueue now i k s =
     (case actors s k of
        None \<Rightarrow> (s, None)
      | Some a \<Rightarrow>
          if busy a then (s, None)
          else
            let a1 = a\<lparr>busy := True\<rparr>;
                s1 = s\<lparr>actors := (actors s)(k \<mapsto> a1)\<rparr>;
                (s2, pc) = whileLoop now i k a1 s1
            in (s2, Some pc))"

text \<open>
  \<^verbatim>\<open>drainLoop\<close> from iterator position \<open>i\<close>, run up to its next \<^verbatim>\<open>await\<close> that
  suspends on a call, or to its end. The iterator of \<^verbatim>\<open>this.actors.values()\<close> is live:
  entries added meanwhile are visited too.
\<close>

function drainLoop :: "nat \<Rightarrow> nat \<Rightarrow> router \<Rightarrow> router \<times> drain_pc" where
  "drainLoop now i s =
     (if i < length (actorOrder s) then
        (case actors s (actorOrder s ! i) of
           None \<Rightarrow> drainLoop now (Suc i) s
         | Some a \<Rightarrow>
             if busy a then drainLoop now (Suc i) s
             else if queue a = [] then drainLoop now (Suc i) s
             else (case processActorQueue now i (actorOrder s ! i) s of
                     (s', Some pc) \<Rightarrow> (s', pc)
                   | (s', None) \<Rightarrow> drainLoop now (Suc i) s'))
      else (s, Finished))"
  by pat_completeness auto
termination
  by (relation "measure (\<lambda>(now, i, s). length (actorOrder s) - i)")
     (auto simp: processActorQueue_def Let_def split: option.splits if_splits prod.splits)

declare drainLoop.simps [simp del]

definition hasPendingWork :: "router \<Rightarrow> bool" where
  "hasPendingWork s =
     (\<exists>k \<in> set (actorOrder s).
        case actors s k of None \<Rightarrow> False | Some a \<Rightarrow> \<not> busy a \<and> queue a \<noteq> [])"

definition triggerDraining :: "nat \<Rightarrow> router \<Rightarrow> router" where
  "triggerDraining now s =
     (if isDraining s then s
      else
        let (s1, pc) = drainLoop now 0 (s\<lparr>isDraining := True\<rparr>)
        in s1\<lparr>tasks := tasks s1 @ [pc]\<rparr>)"

text \<open>The \<^verbatim>\<open>.finally\<close> callback installed by \<^verbatim>\<open>triggerDraining\<close>.\<close>

definition finallyCallback :: "nat \<Rightarrow> router \<Rightarrow> router" where
  "finallyCallback now s =
     (let s1 = s\<lparr>isDraining := False\<rparr>
      in if hasPendingWork s1 then triggerDraining now s1 else s1)"

record route_body =
  body_actorType :: "string option"
  body_actorId :: "string option"
  body_payload :: payload

definition payloadSize :: "payload \<Rightarrow> nat" where
  "payloadSize p = (case p of Falsy \<Rightarrow> 0 | Truthy j \<Rightarrow> length j)"

definition freshActorState :: "string \<Rightarrow> string option \<Rightarrow> string option \<Rightarrow> actor_state" where
  "freshActorState k t i =
     \<lparr>actorKey = k, actorType = t, actorId = i, busy = False, queue = [],
      policy = default_policy\<rparr>"

text \<open>\<^verbatim>\<open>const actorKey = `${actorType}:${actorId}`\<close>.\<close>

definition routeKey :: "route_body \<Rightarrow> string" where
  "routeKey b = template (body_actorType b) @ '':'' @ template (body_actorId b)"

text \<open>
  \<^verbatim>\<open>let actorState = this.actors.get(actorKey); if (!actorState) { .. this.actors.set(..) }\<close>:
  the entry of the key, created idle when there is none.
\<close>

definition lookupOrCreate :: "route_body \<Rightarrow> router \<Rightarrow> actor_state \<times> router" where
  "lookupOrCreate b s =
     (case actors s (routeKey b) of
        Some a \<Rightarrow> (a, s)
      | None \<Rightarrow>
          (freshActorState (routeKey b) (body_actorType b) (body_actorId b),
           s\<lparr>actors := (actors s)(routeKey b \<mapsto>
                freshActorState (routeKey b) (body_actorType b) (body_actorId b)),
             actorOrder := actorOrder s @ [routeKey b]\<rparr>))"

text \<open>
  The admitted message: a new id, \<^verbatim>\<open>actorState.queue.push(message)\<close> and
  \<^verbatim>\<open>this.pendingResults.set(messageId, ..)\<close>.
\<close>

definition enqueue :: "string \<Rightarrow> actor_state \<Rightarrow> payload \<Rightarrow> nat \<Rightarrow> router \<Rightarrow> router" where
  "enqueue k actorState p now s =
     (let mid = nextUuid s;
          msg = \<lparr>messageId = mid, payload = p, enqueuedAt = now\<rparr>
      in s\<lparr>nextUuid := Suc mid,
           actors := (actors s)(k \<mapsto> actorState\<lparr>queue := queue actorState @ [msg]\<rparr>),
           enqueueLog := (enqueueLog s)(k := enqueueLog s k @ [msg]),
           pendingResults :=
             (if mid \<in> set (pendingResults s) then pendingResults s
              else pendingResults s @ [mid])\<rparr>)"

text \<open>
  \<^verbatim>\<open>handleRoute\<close> up to its \<^verbatim>\<open>await Promise.race(..)\<close>. The body is \<open>None\<close> when the
  request is not JSON. The result is the response the call gives at once, or \<open>None\<close> when
  the call now waits for its message to be resolved, rejected or timed out; that later
  response is recorded in \<open>settled\<close>.
\<close>

definition handleRoute :: "route_body option \<Rightarrow> nat \<Rightarrow> router \<Rightarrow> response option \<times> router" where
  "handleRoute body now s =
     (case body of
        None \<Rightarrow> (Some (Resp 400 (Text ''Invalid JSON'')), s)
      | Some b \<Rightarrow>
          let (actorState, s1) = lookupOrCreate b s
          in
            if payloadSize (body_payload b) > maxPayloadBytes (policy actorState)
            then (Some (Resp 413 (ErrBody PayloadTooLarge)), s1)
            else if length (queue actorState) \<ge> queueLimit (policy actorState)
            then (Some (Resp 429 (ErrBody QueueIsFull)), s1)
            else
              (None,
               triggerDraining now (enqueue (routeKey b) actorState (body_payload b) now s1)))"

text \<open>\<^verbatim>\<open>const childKey = `${actorState.actorType}:${childId}`\<close>.\<close>

definition childKey :: "actor_state \<Rightarrow> string \<Rightarrow> string" where
  "childKey a childId = template (actorType a) @ '':'' @ childId"

text \<open>The \<^verbatim>\<open>for (const childId of spawn)\<close> loop of \<^verbatim>\<open>processActorQueue\<close>.\<close>

fun spawnChildren :: "actor_state \<Rightarrow> string list \<Rightarrow> router \<Rightarrow> router" where
  "spawnChildren a [] s = s"
| "spawnChildren a (childId # rest) s =
     spawnChildren a rest
       (if actors s (childKey a childId) = None
        then s\<lparr>actors := (actors s)(childKey a childId \<mapsto>
                  \<lparr>actorKey = childKey a childId, actorType = actorType a,
                   actorId = Some childId, busy = False, queue = [], policy = policy a\<rparr>),
               actorOrder := actorOrder s @ [childKey a childId]\<rparr>
        else s)"

text \<open>The inner \<^verbatim>\<open>while\<close> of the \<^verbatim>\<open>reject\<close> branch, over the messages it shifts off.\<close>

fun rejectAll :: "message list \<Rightarrow> router \<Rightarrow> router" where
  "rejectAll [] s = s"
| "rejectAll (m # ms) s =
     rejectAll ms (settle (messageId m) (Resp 504 (ErrBody MessageRejectedByActor)) s)"

definition envelopeMode :: "envelope \<Rightarrow> string option" where
  "envelopeMode env = (case nextPolicy env of None \<Rightarrow> Some ''immediate'' | Some np \<Rightarrow> mode np)"

definition envelopeSpawn :: "envelope \<Rightarrow> string list" where
  "envelopeSpawn env = (case spawn env of None \<Rightarrow> [] | Some cs \<Rightarrow> cs)"

text \<open>
  \<^verbatim>\<open>processActorQueue\<close> from the point where the call to the actor for message \<open>m\<close>
  settles, up to the next \<^verbatim>\<open>await\<close>. When the call throws, \<^verbatim>\<open>finally\<close> clears
  \<^verbatim>\<open>busy\<close> and the exception ends \<^verbatim>\<open>drainLoop\<close>.
\<close>

definition settleInvoke ::
  "nat \<Rightarrow> nat \<Rightarrow> string \<Rightarrow> message \<Rightarrow> invoke_outcome \<Rightarrow> router \<Rightarrow> router \<times> drain_pc" where
  "settleInvoke now i k m outcome s =
     (case actors s k of
        None \<Rightarrow> (s, Finished)
      | Some a \<Rightarrow>
         (case outcome of
            Threw \<Rightarrow> (s\<lparr>actors := (actors s)(k \<mapsto> a\<lparr>busy := False\<rparr>)\<rparr>, Finished)
          | NotOk st \<Rightarrow>
              let s1 = settle (messageId m) (Resp 504 (ErrBody (ActorDOError st))) s;
                  a1 = a\<lparr>queue := tl (queue a)\<rparr>;
                  s2 = s1\<lparr>actors := (actors s1)(k \<mapsto> a1)\<rparr>
              in (persistActorState now a1 s2, AwaitPersist i k)
          | Ok env \<Rightarrow>
              let s1 = spawnChildren a (envelopeSpawn env) s;
                  s2 = settle (messageId m) (Resp 200 (OkBody (result env) (actorKey a))) s1;
                  a1 = a\<lparr>queue := tl (queue a)\<rparr>;
                  s3 = s2\<lparr>actors := (actors s2)(k \<mapsto> a1)\<rparr>
              in
                if envelopeMode env = Some ''wait''
                then (persistActorState now a1 s3, AwaitPersist i k)
                else if envelopeMode env = Some ''reject''
                then
                  let s4 = rejectAll (queue a1) s3;
                      a2 = a1\<lparr>queue := []\<rparr>;
                      s5 = s4\<lparr>actors := (actors s4)(k \<mapsto> a2)\<rparr>
                  in (persistActorState now a2 s5, AwaitPersist i k)
                else whileLoop now i k a1 s3))"

text \<open>
  From the point where \<^verbatim>\<open>storage.put\<close> settles: \<^verbatim>\<open>finally\<close> clears \<^verbatim>\<open>busy\<close>,
  \<^verbatim>\<open>processActorQueue\<close> returns and \<^verbatim>\<open>drainLoop\<close> goes on with the next entry.
\<close>

definition settlePersist :: "nat \<Rightarrow> nat \<Rightarrow> string \<Rightarrow> router \<Rightarrow> router \<times> drain_pc" where
  "settlePersist now i k s =
     drainLoop now (Suc i)
       (s\<lparr>actors := (actors s)(k := map_option (\<lambda>a. a\<lparr>busy := False\<rparr>) (actors s k))\<rparr>)"


text \<open>
  The timer callback of the route call that enqueued message \<open>mid\<close>:
  \<^verbatim>\<open>this.pendingResults.delete(messageId); reject(new Error("Processing timeout"))\<close>.
  The entry of a call is removed exactly when the call is answered, and the timer is
  cleared or its rejection ignored once the call is answered: the callback has an effect
  only while the entry is there.
\<close>

definition timeoutFired :: "nat \<Rightarrow> router \<Rightarrow> router" where
  "timeoutFired mid s = settle mid (Resp 504 (ErrBody ProcessingTimeout)) s"

section \<open>Status and admin reset\<close>

record status_entry =
  st_actorKey :: string
  st_actorType :: "string option"
  st_actorId :: "string option"
  st_busy :: bool
  st_queueLength :: nat
  st_policy :: "policy option"
  st_metaUpdatedAt :: "nat option"
  st_fromStorage :: bool
  st_fromMemory :: bool

text \<open>\<^verbatim>\<open>Map.prototype.set\<close> on a map kept in insertion order.\<close>

fun map_set :: "string \<Rightarrow> 'v \<Rightarrow> (string \<times> 'v) list \<Rightarrow> (string \<times> 'v) list" where
  "map_set k v [] = [(k, v)]"
| "map_set k v ((k', v') # xs) = (if k = k' then (k, v) # xs else (k', v') # map_set k v xs)"

text \<open>The first loop of \<^verbatim>\<open>handleStatus\<close>, over the listed metadata entries.\<close>

fun statusFromStorage ::
  "(string \<times> meta) list \<Rightarrow> (string \<times> status_entry) list \<Rightarrow> (string \<times> status_entry) list" where
  "statusFromStorage [] sm = sm"
| "statusFromStorage ((key, m) # rest) sm =
     (let actorKey = drop (length ''meta:'') key
      in statusFromStorage rest
           (map_set actorKey
              \<lparr>st_actorKey = actorKey, st_actorType = meta_actorType m,
               st_actorId = meta_actorId m, st_busy = meta_busy m,
               st_queueLength = meta_queueLength m, st_policy = None,
               st_metaUpdatedAt = Some (meta_updatedAt m), st_fromStorage = True,
               st_fromMemory = False\<rparr> sm))"

text \<open>The second loop of \<^verbatim>\<open>handleStatus\<close>, over \<^verbatim>\<open>this.actors.values()\<close>.\<close>

fun statusFromMemory ::
  "string \<Rightarrow> actor_state list \<Rightarrow> (string \<times> status_entry) list \<Rightarrow> (string \<times> status_entry) list" where
  "statusFromMemory p [] sm = sm"
| "statusFromMemory p (a # rest) sm =
     (if p \<noteq> [] \<and> \<not> prefix p (actorKey a) then statusFromMemory p rest sm
      else
        (case map_of sm (actorKey a) of
           Some existing \<Rightarrow>
             statusFromMemory p rest
               (map_set (actorKey a)
                  (existing\<lparr>st_busy := busy a, st_queueLength := length (queue a),
                            st_policy := Some (policy a), st_fromMemory := True\<rparr>) sm)
         | None \<Rightarrow>
             statusFromMemory p rest
               (map_set (actorKey a)
                  \<lparr>st_actorKey = actorKey a, st_actorType = actorType a,
                   st_actorId = actorId a, st_busy = busy a,
                   st_queueLength = length (queue a), st_policy = Some (policy a),
                   st_metaUpdatedAt = None, st_fromStorage = False,
                   st_fromMemory = True\<rparr> sm)))"

text \<open>\<^verbatim>\<open>this.actors.values()\<close>, in insertion order.\<close>

definition actorValues :: "router \<Rightarrow> actor_state list" where
  "actorValues s = List.map_filter (actors s) (actorOrder s)"

text \<open>
  \<^verbatim>\<open>handleStatus\<close>; the argument is the query parameter \<^verbatim>\<open>actorTypePrefix\<close>, if given.
  The result is the \<^verbatim>\<open>actors\<close> array of the response.
\<close>

definition handleStatus :: "string option \<Rightarrow> router \<Rightarrow> status_entry list" where
  "handleStatus q s =
     (let actorTypePrefix = (case q of None \<Rightarrow> [] | Some p \<Rightarrow> p);
          allMeta = storage_list (''meta:'' @ actorTypePrefix) (storage s);
          statusMap = statusFromStorage allMeta []
      in map snd (statusFromMemory actorTypePrefix (actorValues s) statusMap))"

record reset_response =
  ok :: bool
  cleared :: "string list"

text \<open>
  The loop of the \<^verbatim>\<open>/admin-reset\<close> branch of \<^verbatim>\<open>GoldfishRouter.fetch\<close>: for each listed
  key, the activation of the actor is asked to reset and the entry is deleted. The
  actor's \<^verbatim>\<open>/admin-reset\<close> always answers; the whole branch is taken as one step of the
  Router.
\<close>

fun adminResetLoop :: "string list \<Rightarrow> router \<Rightarrow> router" where
  "adminResetLoop [] s = s"
| "adminResetLoop (key # rest) s =
     (let actorKey = drop (length ''meta:'') key
      in adminResetLoop rest
           (s\<lparr>resetLog := resetLog s @ [actorKey],
              storage := storage_delete key (storage s)\<rparr>))"

definition adminReset :: "string option \<Rightarrow> router \<Rightarrow> reset_response \<times> router" where
  "adminReset actorTypePrefix s =
     (let p = ''meta:'' @ (case actorTypePrefix of None \<Rightarrow> [] | Some x \<Rightarrow> x);
          all = storage_list p (storage s)
      in (\<lparr>ok = True, cleared = map fst all\<rparr>, adminResetLoop (map fst all) s))"

section \<open>The Router as a transition system\<close>

text \<open>
  The Router runs on one thread; its state changes only between two \<^verbatim>\<open>await\<close>s. An
  event is one such stretch of code: a route request (with \<^verbatim>\<open>Date.now()\<close>), the timer
  of a route call, the answer to the call a \<^verbatim>\<open>drainLoop\<close> coroutine waits for, the end
  of its \<^verbatim>\<open>storage.put\<close>, its \<^verbatim>\<open>.finally\<close> callback, and an admin reset. Coroutines are
  named by their position in \<open>tasks\<close>; an event for a coroutine that is not waiting for
  it does nothing. When \<^verbatim>\<open>processActorQueue\<close> returns, \<^verbatim>\<open>drainLoop\<close> goes on in
  the same step: code that could run in between sees the Router as it is after the
  return, and nothing it changes is read before the next \<^verbatim>\<open>await\<close> that suspends.
  Real time is not part of the model: a timer may fire at any moment.
\<close>

datatype event =
    Route "route_body option" nat
  | Timeout nat
  | InvokeSettled nat invoke_outcome nat
  | PersistSettled nat nat
  | Finally nat nat
  | AdminReset "string option"

definition step :: "event \<Rightarrow> router \<Rightarrow> router" where
  "step e s =
     (case e of
        Route body now \<Rightarrow> snd (handleRoute body now s)
      | Timeout mid \<Rightarrow> timeoutFired mid s
      | InvokeSettled tid outcome now \<Rightarrow>
          (if tid < length (tasks s) then
             (case tasks s ! tid of
                AwaitInvoke i k m \<Rightarrow>
                  (let (s', pc) = settleInvoke now i k m outcome s
                   in s'\<lparr>tasks := (tasks s')[tid := pc]\<rparr>)
              | _ \<Rightarrow> s)
           else s)
      | PersistSettled tid now \<Rightarrow>
          (if tid < length (tasks s) then
             (case tasks s ! tid of
                AwaitPersist i k \<Rightarrow>
                  (let (s', pc) = settlePersist now i k s
                   in s'\<lparr>tasks := (tasks s')[tid := pc]\<rparr>)
              | _ \<Rightarrow> s)
           else s)
      | Finally tid now \<Rightarrow>
          (if tid < length (tasks s) \<and> tasks s ! tid = Finished
           then finallyCallback now (s\<lparr>tasks := take tid (tasks s) @ drop (Suc tid) (tasks s)\<rparr>)
           else s)
      | AdminReset p \<Rightarrow> snd (adminReset p s))"

fun run :: "event list \<Rightarrow> router \<Rightarrow> router" where
  "run [] s = s"
| "run (e # es) s = run es (step e s)"

text \<open>The states a Router activation can be in: it starts with empty memory over
  whatever its durable store holds.\<close>

definition reachable :: "router \<Rightarrow> bool" where
  "reachable s = (\<exists>es st. s = run es (init st))"

text \<open>The number of \<^verbatim>\<open>/invoke\<close> calls for actor key \<open>k\<close> that are awaiting their answer.\<close>

definition inFlight :: "string \<Rightarrow> router \<Rightarrow> nat" where
  "inFlight k s =
     length (filter (\<lambda>pc. case pc of AwaitInvoke i k' m \<Rightarrow> k' = k | _ \<Rightarrow> False) (tasks s))"

section \<open>The Worker front door (worker.fetch)\<close>

text \<open>\<^verbatim>\<open>!x\<close> for a string that may be \<^verbatim>\<open>undefined\<close>.\<close>

definition falsy :: "string option \<Rightarrow> bool" where
  "falsy x = (x = None \<or> x = Some [])"

text \<open>
  The \<^verbatim>\<open>POST /invoke\<close> branch of \<^verbatim>\<open>worker.fetch\<close>, up to the point where the Router's
  \<^verbatim>\<open>handleRoute\<close> waits. \<open>routers\<close> gives the Router instance of each name
  (\<^verbatim>\<open>env.GOLDFISH_ROUTER.idFromName(actorType)\<close>).
\<close>

definition workerInvoke ::
  "route_body option \<Rightarrow> nat \<Rightarrow> (string \<Rightarrow> router) \<Rightarrow> response option \<times> (string \<Rightarrow> router)" where
  "workerInvoke body now routers =
     (case body of
        None \<Rightarrow> (Some (Resp 400 (Text ''Invalid JSON body'')), routers)
      | Some b \<Rightarrow>
          if falsy (body_actorType b) \<or> falsy (body_actorId b)
          then (Some (Resp 400 (Text ''actorType and actorId are required'')), routers)
          else
            let name = template (body_actorType b);
                (r, s') = handleRoute (Some b) now (routers name)
            in (r, routers(name := s')))"


section \<open>The actor activation (class GoldfishActor)\<close>

text \<open>
  Values of the actor's memory and of the fields of an \<^verbatim>\<open>/invoke\<close> body. Objects and
  arrays are kept as their JSON text; they are truthy.
\<close>

datatype jv = JUndefined | JNull | JBool bool | JNum int | JStr string | JObject json

fun truthy :: "jv \<Rightarrow> bool" where
  "truthy JUndefined = False"
| "truthy JNull = False"
| "truthy (JBool b) = b"
| "truthy (JNum n) = (n \<noteq> 0)"
| "truthy (JStr s) = (s \<noteq> [])"
| "truthy (JObject j) = True"

text \<open>The memory object: its properties in insertion order.\<close>

type_synonym memory = "(string \<times> jv) list"

definition getProp :: "memory \<Rightarrow> string \<Rightarrow> jv" where
  "getProp m f = (case map_of m f of None \<Rightarrow> JUndefined | Some v \<Rightarrow> v)"

record invoke_body =
  ib_payload :: jv
  ib_actorType :: jv
  ib_actorId :: jv

record ctx =
  ctx_actorType :: jv
  ctx_actorId :: jv
  ctx_now :: nat

text \<open>
  What a domain handler returns, and a domain handler: it works on the memory in place
  and returns its result, or throws (\<open>None\<close>), the memory being what it was at that
  point. The handlers call other actors through their Routers, so what a handler does
  is given with each invocation.
\<close>

record handler_result =
  hr_result :: json
  hr_nextPolicy :: "next_policy option"
  hr_spawn :: "string list option"

type_synonym handler = "jv \<Rightarrow> ctx \<Rightarrow> memory \<Rightarrow> memory \<times> handler_result option"

record handlers =
  handleTeacherMessage :: handler
  handleRoomMessage :: handler
  handleStudentMessage :: handler
  handleQuestionMessage :: handler

datatype actor_result = UnknownActorType jv | HandlerResult json

record invoke_response =
  ir_result :: actor_result
  ir_nextPolicy :: next_policy
  ir_spawn :: "string list"

text \<open>
  The activation: \<^verbatim>\<open>this.memory\<close> (\<open>None\<close> is \<^verbatim>\<open>null\<close>), \<^verbatim>\<open>this.initialized\<close>, the
  value stored under \<^verbatim>\<open>"memory"\<close> in its durable store, and the number of times that
  value has been read.
\<close>

record actor =
  memory :: "memory option"
  initialized :: bool
  actorStorage :: "memory option"
  loads :: nat

text \<open>A new activation over a durable store (the constructor).\<close>

definition activate :: "memory option \<Rightarrow> actor" where
  "activate st = \<lparr>memory = None, initialized = False, actorStorage = st, loads = 0\<rparr>"

definition ensureInitialized :: "actor \<Rightarrow> actor" where
  "ensureInitialized a =
     (if initialized a then a
      else a\<lparr>memory := Some (case actorStorage a of None \<Rightarrow> [] | Some stored \<Rightarrow> stored),
             initialized := True, loads := Suc (loads a)\<rparr>)"

definition immediate :: next_policy where
  "immediate = \<lparr>mode = Some ''immediate'', redirectTo = None\<rparr>"

definition handleMessage ::
  "handlers \<Rightarrow> jv \<Rightarrow> ctx \<Rightarrow> memory \<Rightarrow> memory \<times> invoke_response option" where
  "handleMessage hs pl c mem =
     (let mem1 = map_set ''actorType''
            (if truthy (getProp mem ''actorType'') then getProp mem ''actorType''
             else ctx_actorType c) mem;
          mem2 = map_set ''actorId''
            (if truthy (getProp mem1 ''actorId'') then getProp mem1 ''actorId''
             else ctx_actorId c) mem1;
          mem3 = map_set ''lastActiveAt'' (JNum (int (ctx_now c))) mem2;
          dispatch = (\<lambda>h. case h pl c mem3 of
                             (mem4, None) \<Rightarrow> (mem4, None)
                           | (mem4, Some res) \<Rightarrow>
                               (mem4, Some \<lparr>ir_result = HandlerResult (hr_result res),
                                  ir_nextPolicy =
                                    (case hr_nextPolicy res of None \<Rightarrow> immediate
                                     | Some np \<Rightarrow> np),
                                  ir_spawn =
                                    (case hr_spawn res of None \<Rightarrow> [] | Some cs \<Rightarrow> cs)\<rparr>))
      in if ctx_actorType c = JStr ''teacher'' then dispatch (handleTeacherMessage hs)
         else if ctx_actorType c = JStr ''room'' then dispatch (handleRoomMessage hs)
         else if ctx_actorType c = JStr ''student'' then dispatch (handleStudentMessage hs)
         else if ctx_actorType c = JStr ''question'' then dispatch (handleQuestionMessage hs)
         else (mem3, Some \<lparr>ir_result = UnknownActorType (ctx_actorType c),
                           ir_nextPolicy = immediate, ir_spawn = []\<rparr>))"

datatype actor_request =
    InvokeReq invoke_body handlers nat
  | StatusReq
  | AdminResetReq
  | OtherReq

datatype actor_reply =
    InvokeReply invoke_response
  | StatusReply memory
  | AdminResetReply
  | DefaultReply

text \<open>
  \<^verbatim>\<open>GoldfishActor.fetch\<close>, one request at a time. \<open>Inl ()\<close> is an exception leaving
  \<^verbatim>\<open>fetch\<close>: a handler that throws, or \<^verbatim>\<open>memory.actorType\<close> on a \<^verbatim>\<open>null\<close> memory.
  \<^verbatim>\<open>storage.put("memory", this.memory)\<close> stores a copy of the memory object and
  \<^verbatim>\<open>storage.get("memory")\<close> returns it.
\<close>

definition actorFetch :: "actor_request \<Rightarrow> actor \<Rightarrow> (unit + actor_reply) \<times> actor" where
  "actorFetch req a =
     (case req of
        InvokeReq b hs now \<Rightarrow>
          (let a1 = ensureInitialized a;
               c = \<lparr>ctx_actorType = ib_actorType b, ctx_actorId = ib_actorId b, ctx_now = now\<rparr>
           in case memory a1 of
                None \<Rightarrow> (Inl (), a1)
              | Some mem \<Rightarrow>
                  (case handleMessage hs (ib_payload b) c mem of
                     (mem', None) \<Rightarrow> (Inl (), a1\<lparr>memory := Some mem'\<rparr>)
                   | (mem', Some r) \<Rightarrow>
                       (Inr (InvokeReply r),
                        a1\<lparr>memory := Some mem', actorStorage := Some mem'\<rparr>)))
      | StatusReq \<Rightarrow>
          (let a1 = ensureInitialized a
           in (Inr (StatusReply (case memory a1 of None \<Rightarrow> [] | Some mem \<Rightarrow> mem)), a1))
      | AdminResetReq \<Rightarrow>
          (Inr AdminResetReply,
           a\<lparr>actorStorage := None, memory := Some [], initialized := False\<rparr>)
      | OtherReq \<Rightarrow> (Inr DefaultReply, a))"

fun runActor :: "actor_request list \<Rightarrow> actor \<Rightarrow> actor" where
  "runActor [] a = a"
| "runActor (r # rs) a = runActor rs (snd (actorFetch r a))"


section \<open>Invariants of the Router\<close>

definition actors_inv :: "router \<Rightarrow> bool" where
  "actors_inv s \<longleftrightarrow>
     (\<forall>k a. actors s k = Some a \<longrightarrow>
        actorKey a = k \<and> k \<in> set (actorOrder s) \<and> policy a = default_policy \<and>
        length (queue a) \<le> queueLimit default_policy \<and>
        sorted_wrt (<) (map messageId (queue a)) \<and>
        set (queue a) \<subseteq> set (enqueueLog s k) \<and>
        (\<forall>m \<in> set (invokeLog s k). \<forall>q \<in> set (queue a). messageId m \<le> messageId q))"

definition logs_inv :: "router \<Rightarrow> bool" where
  "logs_inv s \<longleftrightarrow>
     (\<forall>k. sorted_wrt (<) (map messageId (enqueueLog s k)) \<and>
          (\<forall>m \<in> set (enqueueLog s k). messageId m < nextUuid s) \<and>
          sorted (map messageId (invokeLog s k)) \<and>
          set (invokeLog s k) \<subseteq> set (enqueueLog s k))"

definition pending_inv :: "router \<Rightarrow> bool" where
  "pending_inv s \<longleftrightarrow>
     (\<forall>x \<in> set (pendingResults s). x < nextUuid s) \<and>
     (\<forall>e \<in> set (settled s). fst e < nextUuid s \<and> fst e \<notin> set (pendingResults s))"

definition data_inv :: "router \<Rightarrow> bool" where
  "data_inv s \<longleftrightarrow> actors_inv s \<and> logs_inv s \<and> pending_inv s"

text \<open>What a suspended coroutine relies on: the entry it works on is marked busy, and
  the message it has sent to the actor is the head of that entry's queue.\<close>

definition task_ok :: "router \<Rightarrow> drain_pc \<Rightarrow> bool" where
  "task_ok s pc =
     (case pc of
        AwaitInvoke i k m \<Rightarrow>
          (\<exists>a. actors s k = Some a \<and> busy a \<and> queue a \<noteq> [] \<and> hd (queue a) = m)
      | AwaitPersist i k \<Rightarrow> (\<exists>a. actors s k = Some a \<and> busy a)
      | Finished \<Rightarrow> True)"

definition task_inv :: "router \<Rightarrow> bool" where
  "task_inv s \<longleftrightarrow>
     length (tasks s) \<le> 1 \<and> (isDraining s \<longleftrightarrow> tasks s \<noteq> []) \<and>
     (\<forall>pc \<in> set (tasks s). task_ok s pc)"

text \<open>A status map whose entries carry their own key, and a status map that shows
  an entry of the Router's memory as it is.\<close>

definition keyed :: "(string \<times> status_entry) list \<Rightarrow> bool" where
  "keyed sm \<longleftrightarrow> (\<forall>e \<in> set sm. st_actorKey (snd e) = fst e)"

definition shows_actor :: "actor_state \<Rightarrow> (string \<times> status_entry) list \<Rightarrow> bool" where
  "shows_actor a sm \<longleftrightarrow>
     (\<exists>e. map_of sm (actorKey a) = Some e \<and> st_actorKey e = actorKey a \<and>
        st_busy e = busy a \<and> st_queueLength e = length (queue a) \<and>
        st_policy e = Some (policy a) \<and> st_fromMemory e)"

text \<open>The route call of message \<open>mid\<close> has been answered, and \<open>rs\<close> is all it was
  answered with.\<close>

definition answered :: "nat \<Rightarrow> (nat \<times> response) list \<Rightarrow> router \<Rightarrow> bool" where
  "answered mid rs s \<longleftrightarrow>
     mid < nextUuid s \<and> mid \<notin> set (pendingResults s) \<and>
     filter (\<lambda>e. fst e = mid) (settled s) = rs"


text \<open>The entry at position \<open>j\<close> of the map has work a drain cycle would take up
  (\<^verbatim>\<open>!actorState.busy && actorState.queue.length > 0\<close>), and it is the first such
  entry in iteration order.\<close>

definition pendingAt :: "router \<Rightarrow> nat \<Rightarrow> bool" where
  "pendingAt s j =
     (case actors s (actorOrder s ! j) of None \<Rightarrow> False | Some a \<Rightarrow> \<not> busy a \<and> queue a \<noteq> [])"

definition firstPending :: "router \<Rightarrow> nat \<Rightarrow> bool" where
  "firstPending s j \<longleftrightarrow>
     j < length (actorOrder s) \<and> pendingAt s j \<and> list_all (\<lambda>j'. \<not> pendingAt s j') [0..<j]"
section \<open>Example inputs\<close>

definition exMeta :: meta where
  "exMeta = \<lparr>meta_busy = True, meta_queueLength = 0, meta_actorType = Some ''room'',
     meta_actorId = Some ''r1'', meta_updatedAt = 7\<rparr>"

definition exHandlers :: handlers where
  "exHandlers =
     \<lparr>handleTeacherMessage = (\<lambda>p c m. (m, None)),
      handleRoomMessage =
        (\<lambda>p c m. (map_set ''roomName'' p m,
           Some \<lparr>hr_result = ''ok'', hr_nextPolicy = None, hr_spawn = None\<rparr>)),
      handleStudentMessage = (\<lambda>p c m. (m, None)),
      handleQuestionMessage = (\<lambda>p c m. (m, None))\<rparr>"

definition exInvokeBody :: invoke_body where
  "exInvokeBody =
     \<lparr>ib_payload = JStr ''n'', ib_actorType = JStr ''room'', ib_actorId = JStr ''r1''\<rparr>"

definition exMemory :: memory where
  "exMemory = [(''actorType'', JStr ''room''), (''actorId'', JStr ''r1''),
     (''lastActiveAt'', JNum 7), (''roomName'', JStr ''n'')]"

definition exBody :: route_body where
  "exBody = \<lparr>body_actorType = Some ''room'', body_actorId = Some ''r1'',
     body_payload = Truthy ''{}''\<rparr>"

definition exBigText :: json where
  "exBigText = replicate 65537 (CHR ''a'')"

definition exBig :: route_body where
  "exBig = \<lparr>body_actorType = Some ''room'', body_actorId = Some ''r1'',
     body_payload = Truthy exBigText\<rparr>"

definition exMsg :: "nat \<Rightarrow> message" where
  "exMsg n = \<lparr>messageId = n, payload = Truthy ''{}'', enqueuedAt = 0\<rparr>"

definition exActor :: "bool \<Rightarrow> message list \<Rightarrow> actor_state" where
  "exActor b q = \<lparr>actorKey = ''room:r1'', actorType = Some ''room'', actorId = Some ''r1'',
     busy = b, queue = q, policy = default_policy\<rparr>"

text \<open>The Router after \<open>n\<close> route calls for \<^verbatim>\<open>room:r1\<close> on a new activation, none of
  them answered yet.\<close>

definition exQ :: "nat \<Rightarrow> router" where
  "exQ n = \<lparr>actorOrder = [''room:r1''],
     actors = [''room:r1'' \<mapsto> exActor True (map exMsg [0..<n])],
     pendingResults = [0..<n], isDraining = True, storage = [],
     tasks = [AwaitInvoke 0 ''room:r1'' (exMsg 0)], nextUuid = n,
     enqueueLog = (\<lambda>_. [])(''room:r1'' := map exMsg [0..<n]),
     invokeLog = (\<lambda>_. [])(''room:r1'' := [exMsg 0]),
     settled = [], resetLog = []\<rparr>"

definition exEnv :: envelope where
  "exEnv = \<lparr>result = Some ''1'', nextPolicy = None, spawn = None\<rparr>"


definition exSpawnEnv :: envelope where
  "exSpawnEnv = \<lparr>result = Some ''1'', nextPolicy = None, spawn = Some [''q1'']\<rparr>"

definition exTBody :: route_body where
  "exTBody = \<lparr>body_actorType = Some ''teacher'', body_actorId = Some ''t1'',
     body_payload = Truthy ''{}''\<rparr>"

definition exTActor :: "string \<Rightarrow> bool \<Rightarrow> message list \<Rightarrow> actor_state" where
  "exTActor i b q = \<lparr>actorKey = ''teacher:'' @ i, actorType = Some ''teacher'',
     actorId = Some i, busy = b, queue = q, policy = default_policy\<rparr>"

definition exTMeta :: meta where
  "exTMeta = \<lparr>meta_busy = True, meta_queueLength = 0, meta_actorType = Some ''teacher'',
     meta_actorId = Some ''t1'', meta_updatedAt = 7\<rparr>"

text \<open>The Router of type \<^verbatim>\<open>teacher\<close> after a route call for \<^verbatim>\<open>teacher:t1\<close>, and then
  after the actor has answered with the spawn hint \<^verbatim>\<open>q1\<close>, after the metadata has been
  written, and after the drain cycle has ended.\<close>

definition exT1 :: router where
  "exT1 = \<lparr>actorOrder = [''teacher:t1''],
     actors = [''teacher:t1'' \<mapsto> exTActor ''t1'' True [exMsg 0]],
     pendingResults = [0], isDraining = True, storage = [],
     tasks = [AwaitInvoke 0 ''teacher:t1'' (exMsg 0)], nextUuid = 1,
     enqueueLog = (\<lambda>_. [])(''teacher:t1'' := [exMsg 0]),
     invokeLog = (\<lambda>_. [])(''teacher:t1'' := [exMsg 0]),
     settled = [], resetLog = []\<rparr>"

definition exT2 :: router where
  "exT2 = \<lparr>actorOrder = [''teacher:t1'', ''teacher:q1''],
     actors = [''teacher:q1'' \<mapsto> exTActor ''q1'' False [],
               ''teacher:t1'' \<mapsto> exTActor ''t1'' True []],
     pendingResults = [], isDraining = True, storage = [(''meta:teacher:t1'', exTMeta)],
     tasks = [AwaitPersist 0 ''teacher:t1''], nextUuid = 1,
     enqueueLog = (\<lambda>_. [])(''teacher:t1'' := [exMsg 0]),
     invokeLog = (\<lambda>_. [])(''teacher:t1'' := [exMsg 0]),
     settled = [(0, Resp 200 (OkBody (Some ''1'') ''teacher:t1''))], resetLog = []\<rparr>"

definition exT3 :: router where
  "exT3 = \<lparr>actorOrder = [''teacher:t1'', ''teacher:q1''],
     actors = [''teacher:q1'' \<mapsto> exTActor ''q1'' False [],
               ''teacher:t1'' \<mapsto> exTActor ''t1'' False []],
     pendingResults = [], isDraining = True, storage = [(''meta:teacher:t1'', exTMeta)],
     tasks = [Finished], nextUuid = 1,
     enqueueLog = (\<lambda>_. [])(''teacher:t1'' := [exMsg 0]),
     invokeLog = (\<lambda>_. [])(''teacher:t1'' := [exMsg 0]),
     settled = [(0, Resp 200 (OkBody (Some ''1'') ''teacher:t1''))], resetLog = []\<rparr>"

definition exT4 :: router where
  "exT4 = \<lparr>actorOrder = [''teacher:t1'', ''teacher:q1''],
     actors = [''teacher:q1'' \<mapsto> exTActor ''q1'' False [],
               ''teacher:t1'' \<mapsto> exTActor ''t1'' False []],
     pendingResults = [], isDraining = False, storage = [(''meta:teacher:t1'', exTMeta)],
     tasks = [], nextUuid = 1,
     enqueueLog = (\<lambda>_. [])(''teacher:t1'' := [exMsg 0]),
     invokeLog = (\<lambda>_. [])(''teacher:t1'' := [exMsg 0]),
     settled = [(0, Resp 200 (OkBody (Some ''1'') ''teacher:t1''))], resetLog = []\<rparr>"


text \<open>The Router with two messages routed to \<^verbatim>\<open>room:r1\<close> after the actor has
  answered the first with the policy mode \<^verbatim>\<open>wait\<close>, and then after the metadata has
  been written: the drain cycle has ended with the second message still queued.\<close>

definition exWaitEnv :: envelope where
  "exWaitEnv = \<lparr>result = Some ''1'',
     nextPolicy = Some \<lparr>mode = Some ''wait'', redirectTo = None\<rparr>, spawn = None\<rparr>"

definition exWMeta :: meta where
  "exWMeta = \<lparr>meta_busy = True, meta_queueLength = 1, meta_actorType = Some ''room'',
     meta_actorId = Some ''r1'', meta_updatedAt = 6\<rparr>"

definition exW1 :: router where
  "exW1 = \<lparr>actorOrder = [''room:r1''],
     actors = [''room:r1'' \<mapsto> exActor True [exMsg 1]],
     pendingResults = [1], isDraining = True, storage = [(''meta:room:r1'', exWMeta)],
     tasks = [AwaitPersist 0 ''room:r1''], nextUuid = 2,
     enqueueLog = (\<lambda>_. [])(''room:r1'' := [exMsg 0, exMsg 1]),
     invokeLog = (\<lambda>_. [])(''room:r1'' := [exMsg 0]),
     settled = [(0, Resp 200 (OkBody (Some ''1'') ''room:r1''))], resetLog = []\<rparr>"

definition exW2 :: router where
  "exW2 = \<lparr>actorOrder = [''room:r1''],
     actors = [''room:r1'' \<mapsto> exActor False [exMsg 1]],
     pendingResults = [1], isDraining = True, storage = [(''meta:room:r1'', exWMeta)],
     tasks = [Finished], nextUuid = 2,
     enqueueLog = (\<lambda>_. [])(''room:r1'' := [exMsg 0, exMsg 1]),
     invokeLog = (\<lambda>_. [])(''room:r1'' := [exMsg 0]),
     settled = [(0, Resp 200 (OkBody (Some ''1'') ''room:r1''))], resetLog = []\<rparr>"






section \<open>The data invariant is preserved\<close>

lemma drainLoop_cases:
  "drainLoop now i s = (s', pc) \<Longrightarrow>
     (pc = Finished \<and> s' = s) \<or>
     (\<exists>j k a m ms. pc = AwaitInvoke j k m \<and> i \<le> j \<and> j < length (actorOrder s) \<and>
        actorOrder s ! j = k \<and> actors s k = Some a \<and> \<not> busy a \<and> queue a = m # ms \<and>
        s' = s\<lparr>actors := (actors s)(k \<mapsto> a\<lparr>busy := True\<rparr>),
               invokeLog := (invokeLog s)(actorKey a := invokeLog s (actorKey a) @ [m])\<rparr>)"
proof (induction now i s arbitrary: s' pc rule: drainLoop.induct)
  case (1 now i s)
  show ?case
  proof (cases "i < length (actorOrder s)")
    case False
    with "1.prems" show ?thesis by (simp add: drainLoop.simps)
  next
    case lt: True
    show ?thesis
    proof (cases "actors s (actorOrder s ! i)")
      case None
      with lt "1.prems" have "drainLoop now (Suc i) s = (s', pc)" by (simp add: drainLoop.simps)
      from "1.IH"(1)[OF lt None this] show ?thesis by (auto intro: Suc_leD)
    next
      case (Some a)
      show ?thesis
      proof (cases "busy a")
        case True
        with lt Some "1.prems" have "drainLoop now (Suc i) s = (s', pc)" by (simp add: drainLoop.simps)
        from "1.IH"(2)[OF lt Some True this] show ?thesis by (auto intro: Suc_leD)
      next
        case nb: False
        show ?thesis
        proof (cases "queue a")
          case Nil
          with lt Some nb "1.prems" have "drainLoop now (Suc i) s = (s', pc)" by (simp add: drainLoop.simps)
          from "1.IH"(3)[OF lt Some nb _ this] Nil show ?thesis by (auto intro: Suc_leD)
        next
          case (Cons m ms)
          with lt Some nb "1.prems" have
            "s' = s\<lparr>actors := (actors s)(actorOrder s ! i \<mapsto> a\<lparr>busy := True\<rparr>),
               invokeLog := (invokeLog s)(actorKey a := invokeLog s (actorKey a) @ [m])\<rparr>"
            "pc = AwaitInvoke i (actorOrder s ! i) m"
            by (simp_all add: drainLoop.simps[of now i s] processActorQueue_def whileLoop_def Let_def)
          with lt Some nb Cons show ?thesis by blast
        qed
      qed
    qed
  qed
qed


lemma data_inv_frame:
  "data_inv s \<Longrightarrow> actorOrder s' = actorOrder s \<Longrightarrow> actors s' = actors s \<Longrightarrow>
   enqueueLog s' = enqueueLog s \<Longrightarrow> invokeLog s' = invokeLog s \<Longrightarrow>
   nextUuid s' = nextUuid s \<Longrightarrow> pendingResults s' = pendingResults s \<Longrightarrow>
   settled s' = settled s \<Longrightarrow> data_inv s'"
  by (simp add: data_inv_def actors_inv_def logs_inv_def pending_inv_def)

lemma data_inv_init: "data_inv (init st)"
  by (simp add: data_inv_def actors_inv_def logs_inv_def pending_inv_def init_def)

lemma data_inv_settle: "data_inv s \<Longrightarrow> data_inv (settle mid r s)"
  by (auto simp: data_inv_def actors_inv_def logs_inv_def pending_inv_def settle_def)

lemma data_inv_rejectAll: "data_inv s \<Longrightarrow> data_inv (rejectAll ms s)"
  by (induction ms arbitrary: s) (simp_all add: data_inv_settle)

lemma data_inv_persist: "data_inv (persistActorState now a s) = data_inv s"
  by (simp add: data_inv_def actors_inv_def logs_inv_def pending_inv_def persistActorState_def)

lemma data_inv_actor_update:
  assumes "data_inv s" "actors s k = Some a" "actorKey a' = k" "policy a' = policy a"
    "queue a' = drop n (queue a)"
  shows "data_inv (s\<lparr>actors := (actors s)(k \<mapsto> a')\<rparr>)"
proof -
  have "sorted_wrt (<) (map messageId (queue a))" "length (queue a) \<le> queueLimit default_policy"
    using assms(1,2) by (auto simp: data_inv_def actors_inv_def)
  then have "sorted_wrt (<) (map messageId (queue a'))" "length (queue a') \<le> queueLimit default_policy"
    using assms(5) by (simp_all add: drop_map [symmetric] sorted_wrt_drop)
  moreover have "set (queue a') \<subseteq> set (queue a)"
    using assms(5) by (simp add: set_drop_subset)
  ultimately show ?thesis
    using assms(1-4) unfolding data_inv_def actors_inv_def logs_inv_def pending_inv_def
    by (simp; blast)
qed

lemma data_inv_invoke:
  assumes "data_inv s" "actors s k = Some a" "queue a = m # ms"
  shows "data_inv (s\<lparr>invokeLog := (invokeLog s)(k := invokeLog s k @ [m])\<rparr>)"
proof -
  have a: "actorKey a = k" "sorted_wrt (<) (map messageId (queue a))"
    "set (queue a) \<subseteq> set (enqueueLog s k)"
    "\<forall>x \<in> set (invokeLog s k). \<forall>q \<in> set (queue a). messageId x \<le> messageId q"
    using assms(1,2) by (auto simp: data_inv_def actors_inv_def)
  have l: "sorted (map messageId (invokeLog s k))" "set (invokeLog s k) \<subseteq> set (enqueueLog s k)"
    using assms(1) by (auto simp: data_inv_def logs_inv_def)
  have 1: "sorted (map messageId (invokeLog s k @ [m]))"
    using a(4) l(1) assms(3) by (simp add: sorted_append)
  have 2: "\<forall>q \<in> set (queue a). messageId m \<le> messageId q"
    using a(2) assms(3) by (auto simp: less_imp_le)
  have 3: "m \<in> set (enqueueLog s k)" using a(3) assms(3) by auto
  show ?thesis
    using assms(1,2) 1 2 3 unfolding data_inv_def actors_inv_def logs_inv_def pending_inv_def
    by (simp; blast)
qed

lemma data_inv_fresh:
  assumes "data_inv s" "actors s k = None"
  shows "data_inv (s\<lparr>actors := (actors s)(k \<mapsto>
            \<lparr>actorKey = k, actorType = t, actorId = i, busy = b, queue = [],
             policy = default_policy\<rparr>),
          actorOrder := actorOrder s @ [k]\<rparr>)"
  using assms unfolding data_inv_def actors_inv_def logs_inv_def pending_inv_def
  by (simp; blast)

lemma data_inv_enqueue:
  assumes "data_inv s" "actors s k = Some a" "length (queue a) < queueLimit (policy a)"
    "msg = \<lparr>messageId = nextUuid s, payload = p, enqueuedAt = n\<rparr>"
  shows "data_inv (s\<lparr>nextUuid := Suc (nextUuid s),
            actors := (actors s)(k \<mapsto> a\<lparr>queue := queue a @ [msg]\<rparr>),
            enqueueLog := (enqueueLog s)(k := enqueueLog s k @ [msg]),
            pendingResults := (if nextUuid s \<in> set (pendingResults s) then pendingResults s
                               else pendingResults s @ [nextUuid s])\<rparr>)"
proof -
  let ?s' = "s\<lparr>nextUuid := Suc (nextUuid s),
            actors := (actors s)(k \<mapsto> a\<lparr>queue := queue a @ [msg]\<rparr>),
            enqueueLog := (enqueueLog s)(k := enqueueLog s k @ [msg]),
            pendingResults := (if nextUuid s \<in> set (pendingResults s) then pendingResults s
                               else pendingResults s @ [nextUuid s])\<rparr>"
  have A: "actors_inv s" and L: "logs_inv s" and P: "pending_inv s"
    using assms(1) by (simp_all add: data_inv_def)
  have id: "messageId msg = nextUuid s" using assms(4) by simp
  have qa: "\<forall>q \<in> set (queue a). messageId q < nextUuid s"
    using A L assms(2) unfolding actors_inv_def logs_inv_def by blast
  have il: "\<forall>x \<in> set (invokeLog s k). messageId x < nextUuid s"
    using L unfolding logs_inv_def by blast
  have "pending_inv ?s'"
    using P unfolding pending_inv_def by (auto simp: less_Suc_eq)
  moreover have "logs_inv ?s'"
    using L id unfolding logs_inv_def
    by (auto simp: sorted_wrt_append less_Suc_eq)
  moreover have "actors_inv ?s'"
    unfolding actors_inv_def
  proof (intro allI impI)
    fix k' a' assume h: "actors ?s' k' = Some a'"
    show "actorKey a' = k' \<and> k' \<in> set (actorOrder ?s') \<and> policy a' = default_policy \<and>
        length (queue a') \<le> queueLimit default_policy \<and>
        sorted_wrt (<) (map messageId (queue a')) \<and>
        set (queue a') \<subseteq> set (enqueueLog ?s' k') \<and>
        (\<forall>m \<in> set (invokeLog ?s' k'). \<forall>q \<in> set (queue a'). messageId m \<le> messageId q)"
    proof (cases "k' = k")
      case True
      then have a': "a' = a\<lparr>queue := queue a @ [msg]\<rparr>" using h by simp
      have ak: "actorKey a = k \<and> k \<in> set (actorOrder s) \<and> policy a = default_policy \<and>
        sorted_wrt (<) (map messageId (queue a)) \<and>
        set (queue a) \<subseteq> set (enqueueLog s k) \<and>
        (\<forall>m \<in> set (invokeLog s k). \<forall>q \<in> set (queue a). messageId m \<le> messageId q)"
        using A assms(2) unfolding actors_inv_def by blast
      show ?thesis
        using True a' ak assms(3) qa il id
        by (auto simp: sorted_wrt_append less_imp_le)
    next
      case False
      then have "actors s k' = Some a'" using h by simp
      with A False show ?thesis unfolding actors_inv_def by simp
    qed
  qed
  ultimately show ?thesis by (simp add: data_inv_def)
qed


lemma data_inv_actorD:
  assumes "data_inv s" "actors s k = Some a"
  shows "actorKey a = k" "k \<in> set (actorOrder s)" "policy a = default_policy"
    "length (queue a) \<le> queueLimit default_policy"
    "sorted_wrt (<) (map messageId (queue a))"
  using assms by (auto simp: data_inv_def actors_inv_def)

lemma data_inv_spawnChildren:
  "data_inv s \<Longrightarrow> policy a = default_policy \<Longrightarrow> data_inv (spawnChildren a cs s)"
proof (induction cs arbitrary: s)
  case Nil
  then show ?case by simp
next
  case (Cons c cs)
  show ?case
    using Cons.prems data_inv_fresh [OF Cons.prems(1)]
    by (auto simp: Let_def intro!: Cons.IH)
qed

lemma data_inv_busy_invoke:
  assumes "data_inv s" "actors s k = Some a" "queue a = m # ms"
  shows "data_inv (s\<lparr>actors := (actors s)(k \<mapsto> a\<lparr>busy := b\<rparr>),
               invokeLog := (invokeLog s)(actorKey a := invokeLog s (actorKey a) @ [m])\<rparr>)"
proof -
  let ?s1 = "s\<lparr>actors := (actors s)(k \<mapsto> a\<lparr>busy := b\<rparr>)\<rparr>"
  have 1: "data_inv ?s1"
    by (rule data_inv_actor_update [OF assms(1,2), where n = 0])
       (simp_all add: data_inv_actorD(1) [OF assms(1,2)])
  have 2: "actors ?s1 k = Some (a\<lparr>busy := b\<rparr>)" by simp
  have "data_inv (?s1\<lparr>invokeLog := (invokeLog ?s1)(k := invokeLog ?s1 k @ [m])\<rparr>)"
    by (rule data_inv_invoke [OF 1 2]) (simp add: assms(3))
  then show ?thesis using data_inv_actorD(1) [OF assms(1,2)] by simp
qed

lemma data_inv_drainLoop:
  assumes "data_inv s" "drainLoop now i s = (s', pc)"
  shows "data_inv s'"
  using drainLoop_cases [OF assms(2)] assms(1)
  by (auto intro: data_inv_busy_invoke)

lemma data_inv_isDraining [simp]: "data_inv (s\<lparr>isDraining := b\<rparr>) = data_inv s"
  by (simp add: data_inv_def actors_inv_def logs_inv_def pending_inv_def)

lemma data_inv_tasks [simp]: "data_inv (s\<lparr>tasks := t\<rparr>) = data_inv s"
  by (simp add: data_inv_def actors_inv_def logs_inv_def pending_inv_def)

lemma data_inv_triggerDraining: "data_inv s \<Longrightarrow> data_inv (triggerDraining now s)"
  by (auto simp: triggerDraining_def Let_def split: prod.splits
        dest!: data_inv_drainLoop [rotated])

lemma data_inv_finallyCallback: "data_inv s \<Longrightarrow> data_inv (finallyCallback now s)"
  by (simp add: finallyCallback_def Let_def data_inv_triggerDraining)

lemma data_inv_whileLoop:
  assumes "data_inv s" "actors s k = Some a"
  shows "data_inv (fst (whileLoop now i k a s))"
proof (cases "queue a")
  case Nil
  then show ?thesis using assms(1) by (simp add: whileLoop_def data_inv_persist)
next
  case (Cons m ms)
  have "data_inv (s\<lparr>invokeLog := (invokeLog s)(k := invokeLog s k @ [m])\<rparr>)"
    by (rule data_inv_invoke [OF assms Cons])
  then show ?thesis
    using Cons data_inv_actorD(1) [OF assms] by (simp add: whileLoop_def)
qed

lemma data_inv_settlePersist:
  assumes "data_inv s"
  shows "data_inv (fst (settlePersist now i k s))"
proof -
  let ?s1 = "s\<lparr>actors := (actors s)(k := map_option (\<lambda>a. a\<lparr>busy := False\<rparr>) (actors s k))\<rparr>"
  have "data_inv ?s1"
  proof (cases "actors s k")
    case None
    then have "(actors s)(k := map_option (\<lambda>a. a\<lparr>busy := False\<rparr>) (actors s k)) = actors s"
      by (simp add: fun_upd_idem)
    then show ?thesis using assms by simp
  next
    case (Some a)
    show ?thesis
      using data_inv_actor_update [OF assms Some, where n = 0 and a' = "a\<lparr>busy := False\<rparr>"]
        data_inv_actorD(1) [OF assms Some] Some
      by simp
  qed
  then show ?thesis
    unfolding settlePersist_def
    by (metis data_inv_drainLoop prod.collapse)
qed

lemma spawnChildren_frame:
  "pendingResults (spawnChildren a cs s) = pendingResults s"
  "settled (spawnChildren a cs s) = settled s"
  "tasks (spawnChildren a cs s) = tasks s"
  "isDraining (spawnChildren a cs s) = isDraining s"
  "invokeLog (spawnChildren a cs s) = invokeLog s"
  "enqueueLog (spawnChildren a cs s) = enqueueLog s"
  "nextUuid (spawnChildren a cs s) = nextUuid s"
  "storage (spawnChildren a cs s) = storage s"
  by (induction cs arbitrary: s; simp add: Let_def)+

lemma spawnChildren_actors_old:
  "actors s k = Some a' \<Longrightarrow> actors (spawnChildren a cs s) k = Some a'"
proof (induction cs arbitrary: s)
  case Nil
  then show ?case by simp
next
  case (Cons c cs)
  show ?case
    using Cons.prems by (auto intro!: Cons.IH)
qed

lemma settle_frame:
  "actors (settle mid r s) = actors s"
  "actorOrder (settle mid r s) = actorOrder s"
  "tasks (settle mid r s) = tasks s"
  "isDraining (settle mid r s) = isDraining s"
  "invokeLog (settle mid r s) = invokeLog s"
  "enqueueLog (settle mid r s) = enqueueLog s"
  "nextUuid (settle mid r s) = nextUuid s"
  "storage (settle mid r s) = storage s"
  by (simp_all add: settle_def)

lemma rejectAll_frame:
  "actors (rejectAll ms s) = actors s"
  "actorOrder (rejectAll ms s) = actorOrder s"
  "tasks (rejectAll ms s) = tasks s"
  "isDraining (rejectAll ms s) = isDraining s"
  "invokeLog (rejectAll ms s) = invokeLog s"
  "enqueueLog (rejectAll ms s) = enqueueLog s"
  "nextUuid (rejectAll ms s) = nextUuid s"
  "storage (rejectAll ms s) = storage s"
  by (induction ms arbitrary: s; simp add: settle_frame)+

lemma data_inv_settleInvoke:
  assumes "data_inv s"
  shows "data_inv (fst (settleInvoke now i k m outcome s))"
proof (cases "actors s k")
  case None
  then show ?thesis using assms by (simp add: settleInvoke_def)
next
  case (Some a)
  note aD = data_inv_actorD [OF assms Some]
  show ?thesis
  proof (cases outcome)
    case Threw
    then show ?thesis
      using Some data_inv_actor_update [OF assms Some, where n = 0 and a' = "a\<lparr>busy := False\<rparr>"] aD(1)
      by (simp add: settleInvoke_def)
  next
    case (NotOk st)
    let ?s1 = "settle (messageId m) (Resp 504 (ErrBody (ActorDOError st))) s"
    have 1: "data_inv ?s1" by (rule data_inv_settle [OF assms])
    have 2: "actors ?s1 k = Some a" using Some by (simp add: settle_frame)
    have "data_inv (?s1\<lparr>actors := (actors ?s1)(k \<mapsto> a\<lparr>queue := tl (queue a)\<rparr>)\<rparr>)"
      by (rule data_inv_actor_update [OF 1 2, where n = 1]) (simp_all add: aD(1) drop_Suc)
    then show ?thesis
      using Some NotOk by (simp add: settleInvoke_def Let_def data_inv_persist)
  next
    case (Ok env)
    let ?s1 = "spawnChildren a (envelopeSpawn env) s"
    let ?s2 = "settle (messageId m) (Resp 200 (OkBody (result env) (actorKey a))) ?s1"
    let ?a1 = "a\<lparr>queue := tl (queue a)\<rparr>"
    let ?s3 = "?s2\<lparr>actors := (actors ?s2)(k \<mapsto> ?a1)\<rparr>"
    have 1: "data_inv ?s2"
      by (intro data_inv_settle data_inv_spawnChildren assms aD(3))
    have 2: "actors ?s2 k = Some a"
      using Some by (simp add: settle_frame spawnChildren_actors_old)
    have 3: "data_inv ?s3"
      by (rule data_inv_actor_update [OF 1 2, where n = 1]) (simp_all add: aD(1) drop_Suc)
    have a3: "actors ?s3 k = Some ?a1" by simp
    let ?s4 = "rejectAll (queue ?a1) ?s3"
    have 4: "data_inv ?s4" by (rule data_inv_rejectAll [OF 3])
    have a4: "actors ?s4 k = Some ?a1" by (simp add: rejectAll_frame)
    have 5: "data_inv (?s4\<lparr>actors := (actors ?s4)(k \<mapsto> ?a1\<lparr>queue := []\<rparr>)\<rparr>)"
      by (rule data_inv_actor_update [OF 4 a4, where n = "length (queue ?a1)"]) (simp_all add: aD(1))
    have 6: "data_inv (fst (whileLoop now i k ?a1 ?s3))"
      by (rule data_inv_whileLoop [OF 3 a3])
    show ?thesis
      using Some Ok 3 5 6
      by (simp add: settleInvoke_def Let_def data_inv_persist)
  qed
qed

lemma data_inv_lookupOrCreate:
  assumes "data_inv s" "lookupOrCreate b s = (a, s1)"
  shows "data_inv s1" "actors s1 (routeKey b) = Some a"
  using assms data_inv_fresh [OF assms(1), of "routeKey b"]
  by (auto simp: lookupOrCreate_def freshActorState_def split: option.splits)

lemma data_inv_handleRoute:
  assumes "data_inv s"
  shows "data_inv (snd (handleRoute body now s))"
proof (cases body)
  case None
  then show ?thesis using assms by (simp add: handleRoute_def)
next
  case (Some b)
  obtain a s1 where l: "lookupOrCreate b s = (a, s1)" by (cases "lookupOrCreate b s")
  note 1 = data_inv_lookupOrCreate [OF assms l]
  show ?thesis
  proof (cases "payloadSize (body_payload b) > maxPayloadBytes (policy a) \<or> length (queue a) \<ge> queueLimit (policy a)")
    case True
    then show ?thesis
      using Some 1 l by (auto simp: handleRoute_def)
  next
    case False
    then have lt: "length (queue a) < queueLimit (policy a)" by simp
    have "data_inv (enqueue (routeKey b) a (body_payload b) now s1)"
      unfolding enqueue_def Let_def
      by (rule data_inv_enqueue [OF 1 lt]) simp
    then show ?thesis
      using Some False l
      by (simp add: handleRoute_def data_inv_triggerDraining)
  qed
qed

lemma data_inv_adminReset: "data_inv s \<Longrightarrow> data_inv (snd (adminReset p s))"
proof -
  have "\<And>ks s. data_inv (adminResetLoop ks s) = data_inv s"
  proof -
    fix ks s show "data_inv (adminResetLoop ks s) = data_inv s"
      by (induction ks arbitrary: s)
         (simp_all add: Let_def data_inv_def actors_inv_def logs_inv_def pending_inv_def)
  qed
  then show "data_inv s \<Longrightarrow> data_inv (snd (adminReset p s))"
    by (simp add: adminReset_def Let_def)
qed

lemma data_inv_settleInvoke_pair:
  "data_inv s \<Longrightarrow> settleInvoke now i k m outcome s = (s', pc) \<Longrightarrow> data_inv s'"
  using data_inv_settleInvoke [of s now i k m outcome] by simp

lemma data_inv_settlePersist_pair:
  "data_inv s \<Longrightarrow> settlePersist now i k s = (s', pc) \<Longrightarrow> data_inv s'"
  using data_inv_settlePersist [of s now i k] by simp

lemma data_inv_step: "data_inv s \<Longrightarrow> data_inv (step e s)"
proof (cases e)
  case (Route body now)
  assume "data_inv s" then show ?thesis using Route by (simp add: step_def data_inv_handleRoute)
next
  case (Timeout mid)
  assume "data_inv s" then show ?thesis using Timeout
    by (simp add: step_def timeoutFired_def data_inv_settle)
next
  case (InvokeSettled tid outcome now)
  assume "data_inv s" then show ?thesis
    using InvokeSettled
    by (auto simp: step_def split: drain_pc.splits prod.splits
          intro: data_inv_settleInvoke_pair)
next
  case (PersistSettled tid now)
  assume "data_inv s" then show ?thesis
    using PersistSettled
    by (auto simp: step_def split: drain_pc.splits prod.splits
          intro: data_inv_settlePersist_pair)
next
  case (Finally tid now)
  assume "data_inv s" then show ?thesis using Finally
    by (simp add: step_def data_inv_finallyCallback)
next
  case (AdminReset p)
  assume "data_inv s" then show ?thesis using AdminReset
    by (simp add: step_def data_inv_adminReset)
qed

section \<open>The coroutine invariant is preserved\<close>

lemma persistActorState_frame:
  "actors (persistActorState now a s) = actors s"
  "actorOrder (persistActorState now a s) = actorOrder s"
  "tasks (persistActorState now a s) = tasks s"
  "isDraining (persistActorState now a s) = isDraining s"
  "invokeLog (persistActorState now a s) = invokeLog s"
  "enqueueLog (persistActorState now a s) = enqueueLog s"
  "nextUuid (persistActorState now a s) = nextUuid s"
  "pendingResults (persistActorState now a s) = pendingResults s"
  "settled (persistActorState now a s) = settled s"
  by (simp_all add: persistActorState_def)

lemma whileLoop_cases:
  "whileLoop now i k a s = (s', pc) \<Longrightarrow>
     (queue a = [] \<and> pc = AwaitPersist i k \<and> s' = persistActorState now a s) \<or>
     (\<exists>m ms. queue a = m # ms \<and> pc = AwaitInvoke i k m \<and>
        s' = s\<lparr>invokeLog := (invokeLog s)(actorKey a := invokeLog s (actorKey a) @ [m])\<rparr>)"
  by (cases "queue a") (auto simp: whileLoop_def)

lemma task_ok_mono:
  assumes "task_ok s pc"
    "\<And>k a. actors s k = Some a \<Longrightarrow>
       \<exists>a'. actors s' k = Some a' \<and> busy a' = busy a \<and>
         (queue a \<noteq> [] \<longrightarrow> queue a' \<noteq> [] \<and> hd (queue a') = hd (queue a))"
  shows "task_ok s' pc"
proof (cases pc)
  case (AwaitInvoke i k m)
  then obtain a where a: "actors s k = Some a" "busy a" "queue a \<noteq> []" "hd (queue a) = m"
    using assms(1) by (auto simp: task_ok_def)
  from assms(2) [OF a(1)] a show ?thesis
    using AwaitInvoke by (auto simp: task_ok_def)
next
  case (AwaitPersist i k)
  then obtain a where a: "actors s k = Some a" "busy a"
    using assms(1) by (auto simp: task_ok_def)
  from assms(2) [OF a(1)] a show ?thesis
    using AwaitPersist by (auto simp: task_ok_def)
next
  case Finished
  then show ?thesis by (simp add: task_ok_def)
qed

lemma drainLoop_task:
  assumes "drainLoop now i s = (s', pc)"
  shows "task_ok s' pc" "tasks s' = tasks s" "isDraining s' = isDraining s"
  using drainLoop_cases [OF assms] by (auto simp: task_ok_def)

lemma task_inv_triggerDraining:
  assumes "task_inv s"
  shows "task_inv (triggerDraining now s)"
proof (cases "isDraining s")
  case True
  then show ?thesis using assms by (simp add: triggerDraining_def)
next
  case False
  obtain s1 pc where d: "drainLoop now 0 (s\<lparr>isDraining := True\<rparr>) = (s1, pc)"
    by (cases "drainLoop now 0 (s\<lparr>isDraining := True\<rparr>)")
  have t: "tasks s = []" using assms False by (simp add: task_inv_def)
  show ?thesis
    using False d t drainLoop_task [OF d]
    by (auto simp: triggerDraining_def task_inv_def task_ok_def split: drain_pc.splits)
qed

lemma task_inv_finallyCallback:
  assumes "tasks s = []"
  shows "task_inv (finallyCallback now s)"
proof -
  have "task_inv (s\<lparr>isDraining := False\<rparr>)" using assms by (simp add: task_inv_def)
  then show ?thesis
    by (simp add: finallyCallback_def Let_def task_inv_triggerDraining)
qed

lemma task_inv_mono:
  assumes "task_inv s" "tasks s' = tasks s" "isDraining s' = isDraining s"
    "\<And>k a. actors s k = Some a \<Longrightarrow>
       \<exists>a'. actors s' k = Some a' \<and> busy a' = busy a \<and>
         (queue a \<noteq> [] \<longrightarrow> queue a' \<noteq> [] \<and> hd (queue a') = hd (queue a))"
  shows "task_inv s'"
  using assms(1-3) task_ok_mono [OF _ assms(4)]
  by (auto simp: task_inv_def)

lemma task_inv_settle:
  assumes "task_inv s"
  shows "task_inv (settle mid r s)"
  using assms by (rule task_inv_mono) (simp_all add: settle_frame)

lemma task_inv_lookupOrCreate:
  assumes "task_inv s" "lookupOrCreate b s = (a, s1)"
  shows "task_inv s1"
  using assms(1)
proof (rule task_inv_mono)
  show "tasks s1 = tasks s" "isDraining s1 = isDraining s"
    using assms(2) by (auto simp: lookupOrCreate_def split: option.splits)
next
  fix k a0 assume "actors s k = Some a0"
  then have "actors s1 k = Some a0"
    using assms(2) by (auto simp: lookupOrCreate_def split: option.splits)
  then show "\<exists>a'. actors s1 k = Some a' \<and> busy a' = busy a0 \<and>
         (queue a0 \<noteq> [] \<longrightarrow> queue a' \<noteq> [] \<and> hd (queue a') = hd (queue a0))"
    by simp
qed

lemma task_inv_enqueue:
  assumes "task_inv s" "actors s k = Some a"
  shows "task_inv (enqueue k a p now s)"
  using assms(1)
proof (rule task_inv_mono)
  show "tasks (enqueue k a p now s) = tasks s" "isDraining (enqueue k a p now s) = isDraining s"
    by (simp_all add: enqueue_def Let_def)
next
  fix k' a0 assume "actors s k' = Some a0"
  then show "\<exists>a'. actors (enqueue k a p now s) k' = Some a' \<and> busy a' = busy a0 \<and>
         (queue a0 \<noteq> [] \<longrightarrow> queue a' \<noteq> [] \<and> hd (queue a') = hd (queue a0))"
    using assms(2) by (cases "k' = k") (simp_all add: enqueue_def Let_def)
qed

lemma task_inv_handleRoute:
  assumes "task_inv s" "data_inv s"
  shows "task_inv (snd (handleRoute body now s))"
proof (cases body)
  case None
  then show ?thesis using assms by (simp add: handleRoute_def)
next
  case (Some b)
  obtain a s1 where l: "lookupOrCreate b s = (a, s1)" by (cases "lookupOrCreate b s")
  note 1 = task_inv_lookupOrCreate [OF assms(1) l]
  note 2 = data_inv_lookupOrCreate(2) [OF assms(2) l]
  show ?thesis
    using Some l 1 task_inv_enqueue [OF 1 2]
    by (simp add: handleRoute_def task_inv_triggerDraining)
qed

lemma settleInvoke_task:
  assumes "task_ok s (AwaitInvoke i k m)" "settleInvoke now i k m outcome s = (s', pc)"
  shows "task_ok s' pc" "tasks s' = tasks s" "isDraining s' = isDraining s"
proof -
  obtain a where a: "actors s k = Some a" "busy a"
    using assms(1) by (auto simp: task_ok_def)
  have "task_ok s' pc \<and> tasks s' = tasks s \<and> isDraining s' = isDraining s"
  proof (cases outcome)
    case Threw
    then show ?thesis using assms(2) a by (auto simp: settleInvoke_def task_ok_def)
  next
    case (NotOk st)
    then show ?thesis
      using assms(2) a
      by (auto simp: settleInvoke_def Let_def task_ok_def persistActorState_frame settle_frame)
  next
    case (Ok env)
    let ?s1 = "spawnChildren a (envelopeSpawn env) s"
    let ?s2 = "settle (messageId m) (Resp 200 (OkBody (result env) (actorKey a))) ?s1"
    let ?a1 = "a\<lparr>queue := tl (queue a)\<rparr>"
    let ?s3 = "?s2\<lparr>actors := (actors ?s2)(k \<mapsto> ?a1)\<rparr>"
    show ?thesis
    proof (cases "envelopeMode env = Some ''wait'' \<or> envelopeMode env = Some ''reject''")
      case True
      then show ?thesis
        using assms(2) a Ok
        by (auto simp: settleInvoke_def Let_def task_ok_def persistActorState_frame settle_frame
              rejectAll_frame spawnChildren_frame)
    next
      case False
      then have w: "whileLoop now i k ?a1 ?s3 = (s', pc)"
        using assms(2) a Ok by (simp add: settleInvoke_def Let_def)
      from whileLoop_cases [OF w] a show ?thesis
        by (auto simp: task_ok_def persistActorState_frame settle_frame spawnChildren_frame)
    qed
  qed
  then show "task_ok s' pc" "tasks s' = tasks s" "isDraining s' = isDraining s" by simp_all
qed

lemma settlePersist_task:
  assumes "settlePersist now i k s = (s', pc)"
  shows "task_ok s' pc" "tasks s' = tasks s" "isDraining s' = isDraining s"
  using assms drainLoop_task [of now "Suc i" _ s' pc]
  by (simp_all add: settlePersist_def)

lemma task_inv_single:
  assumes "task_inv s" "tid < length (tasks s)"
  shows "tid = 0" "tasks s = [tasks s ! 0]"
  using assms by (cases "tasks s"; simp add: task_inv_def)+

lemma task_inv_step:
  assumes "task_inv s" "data_inv s"
  shows "task_inv (step e s)"
proof (cases e)
  case (Route body now)
  then show ?thesis using assms by (simp add: step_def task_inv_handleRoute)
next
  case (Timeout mid)
  then show ?thesis using assms by (simp add: step_def timeoutFired_def task_inv_settle)
next
  case (InvokeSettled tid outcome now)
  show ?thesis
  proof (cases "tid < length (tasks s)")
    case False
    then show ?thesis using InvokeSettled assms by (simp add: step_def)
  next
    case True
    note single = task_inv_single [OF assms(1) True]
    show ?thesis
    proof (cases "tasks s ! tid")
      case (AwaitInvoke i k m)
      obtain s' pc where si: "settleInvoke now i k m outcome s = (s', pc)"
        by (cases "settleInvoke now i k m outcome s")
      have ok: "task_ok s (AwaitInvoke i k m)"
        using assms(1) True AwaitInvoke by (auto simp: task_inv_def dest: nth_mem)
      have "task_inv (s'\<lparr>tasks := (tasks s')[tid := pc]\<rparr>)"
        using settleInvoke_task [OF ok si] single assms(1)
        by (cases "tasks s") (auto simp: task_inv_def task_ok_def split: drain_pc.splits)
      then show ?thesis using InvokeSettled True AwaitInvoke si by (simp add: step_def)
    next
      case (AwaitPersist i k)
      then show ?thesis using InvokeSettled True assms by (simp add: step_def)
    next
      case Finished
      then show ?thesis using InvokeSettled True assms by (simp add: step_def)
    qed
  qed
next
  case (PersistSettled tid now)
  show ?thesis
  proof (cases "tid < length (tasks s)")
    case False
    then show ?thesis using PersistSettled assms by (simp add: step_def)
  next
    case True
    note single = task_inv_single [OF assms(1) True]
    show ?thesis
    proof (cases "tasks s ! tid")
      case (AwaitPersist i k)
      obtain s' pc where si: "settlePersist now i k s = (s', pc)"
        by (cases "settlePersist now i k s")
      have "task_inv (s'\<lparr>tasks := (tasks s')[tid := pc]\<rparr>)"
        using settlePersist_task [OF si] single assms(1)
        by (cases "tasks s") (auto simp: task_inv_def task_ok_def split: drain_pc.splits)
      then show ?thesis using PersistSettled True AwaitPersist si by (simp add: step_def)
    next
      case (AwaitInvoke i k m)
      then show ?thesis using PersistSettled True assms by (simp add: step_def)
    next
      case Finished
      then show ?thesis using PersistSettled True assms by (simp add: step_def)
    qed
  qed
next
  case (Finally tid now)
  show ?thesis
  proof (cases "tid < length (tasks s) \<and> tasks s ! tid = Finished")
    case False
    then show ?thesis using Finally assms by (auto simp: step_def)
  next
    case True
    then have "take tid (tasks s) @ drop (Suc tid) (tasks s) = []"
      using task_inv_single [OF assms(1), of tid] by (cases "tasks s") auto
    then show ?thesis
      using Finally True by (simp add: step_def task_inv_finallyCallback)
  qed
next
  case (AdminReset p)
  have "\<And>ks s. tasks (adminResetLoop ks s) = tasks s \<and> isDraining (adminResetLoop ks s) = isDraining s
      \<and> actors (adminResetLoop ks s) = actors s"
  proof -
    fix ks s
    show "tasks (adminResetLoop ks s) = tasks s \<and> isDraining (adminResetLoop ks s) = isDraining s
      \<and> actors (adminResetLoop ks s) = actors s"
      by (induction ks arbitrary: s) (simp_all add: Let_def)
  qed
  then have "task_inv (snd (adminReset p s))"
    using assms(1) by (intro task_inv_mono [OF assms(1)]) (simp_all add: adminReset_def Let_def)
  then show ?thesis using AdminReset by (simp add: step_def)
qed

lemma inv_init: "data_inv (init st)" "task_inv (init st)"
  by (simp_all add: data_inv_init) (simp add: task_inv_def init_def)

lemma inv_run: "data_inv s \<Longrightarrow> task_inv s \<Longrightarrow> data_inv (run es s) \<and> task_inv (run es s)"
  by (induction es arbitrary: s) (simp_all add: data_inv_step task_inv_step)

lemma reachable_inv: "reachable s \<Longrightarrow> data_inv s \<and> task_inv s"
  using inv_run [OF inv_init] by (auto simp: reachable_def)

lemma reachable_init: "reachable (init st)"
  unfolding reachable_def by (rule exI [of _ "[]"]) auto

lemma run_append: "run (es @ es') s = run es' (run es s)"
  by (induction es arbitrary: s) simp_all

lemma reachable_run: "reachable s \<Longrightarrow> reachable (run es s)"
  unfolding reachable_def by (metis run_append)

lemma reachable_step: "reachable s \<Longrightarrow> reachable (step e s)"
  using reachable_run [of s "[e]"] by simp

section \<open>Progress of the drain cycle\<close>

lemma drainLoop_frame:
  assumes "drainLoop now i s = (s', pc)"
  shows "nextUuid s' = nextUuid s" "pendingResults s' = pendingResults s"
    "settled s' = settled s" "enqueueLog s' = enqueueLog s" "storage s' = storage s"
    "actorOrder s' = actorOrder s"
  using drainLoop_cases [OF assms] by auto

lemma drainLoop_skip:
  assumes "i < length (actorOrder s)" "\<not> pendingAt s i"
  shows "drainLoop now i s = drainLoop now (Suc i) s"
  using assms
  by (subst drainLoop.simps) (auto simp: pendingAt_def split: option.splits)

lemma drainLoop_here:
  assumes "i < length (actorOrder s)" "actors s (actorOrder s ! i) = Some a" "\<not> busy a"
    "queue a = m # ms"
  shows "drainLoop now i s =
     (s\<lparr>actors := (actors s)(actorOrder s ! i \<mapsto> a\<lparr>busy := True\<rparr>),
        invokeLog := (invokeLog s)(actorKey a := invokeLog s (actorKey a) @ [m])\<rparr>,
      AwaitInvoke i (actorOrder s ! i) m)"
  using assms
  by (subst drainLoop.simps) (simp add: processActorQueue_def whileLoop_def Let_def)

lemma drainLoop_skip_to:
  assumes "i \<le> j" "j < length (actorOrder s)" "\<forall>j'. i \<le> j' \<and> j' < j \<longrightarrow> \<not> pendingAt s j'"
  shows "drainLoop now i s = drainLoop now j s"
  using assms(1,3)
proof (induction rule: inc_induct)
  case base
  show ?case by simp
next
  case (step n)
  have "drainLoop now n s = drainLoop now (Suc n) s"
    using step.hyps step.prems assms(2) by (intro drainLoop_skip) auto
  also have "\<dots> = drainLoop now j s"
    using step.prems by (intro step.IH) auto
  finally show ?case .
qed

lemma drainLoop_first:
  assumes "firstPending s j" "actors s (actorOrder s ! j) = Some a" "queue a = m # ms"
  shows "drainLoop now 0 s =
     (s\<lparr>actors := (actors s)(actorOrder s ! j \<mapsto> a\<lparr>busy := True\<rparr>),
        invokeLog := (invokeLog s)(actorKey a := invokeLog s (actorKey a) @ [m])\<rparr>,
      AwaitInvoke j (actorOrder s ! j) m)"
proof -
  have j: "j < length (actorOrder s)" and nb: "\<not> busy a"
    and before: "\<forall>j'. 0 \<le> j' \<and> j' < j \<longrightarrow> \<not> pendingAt s j'"
    using assms by (auto simp: firstPending_def pendingAt_def list_all_iff)
  have "drainLoop now 0 s = drainLoop now j s"
    using j before by (intro drainLoop_skip_to) simp_all
  then show ?thesis using drainLoop_here [OF j assms(2) nb assms(3)] by simp
qed

lemma firstPending_frame:
  assumes "actors s' = actors s" "actorOrder s' = actorOrder s"
  shows "firstPending s' j = firstPending s j"
  using assms by (simp add: firstPending_def pendingAt_def)

lemma firstPending_hasPendingWork:
  assumes "firstPending s j"
  shows "hasPendingWork s"
proof -
  have "actorOrder s ! j \<in> set (actorOrder s)"
    using assms by (simp add: firstPending_def)
  moreover have "case actors s (actorOrder s ! j) of None \<Rightarrow> False
      | Some a \<Rightarrow> \<not> busy a \<and> queue a \<noteq> []"
    using assms by (simp add: firstPending_def pendingAt_def)
  ultimately show ?thesis unfolding hasPendingWork_def by blast
qed

text \<open>The \<^verbatim>\<open>.finally\<close> callback of a drain cycle that has ended starts the next cycle,
  which sends the head of the first entry with work.\<close>

lemma finally_sends_first:
  assumes "tasks s = [Finished]" "firstPending s j" "actors s (actorOrder s ! j) = Some a"
    "queue a = m # ms"
  shows "step (Finally 0 now) s =
     s\<lparr>isDraining := True,
       actors := (actors s)(actorOrder s ! j \<mapsto> a\<lparr>busy := True\<rparr>),
       invokeLog := (invokeLog s)(actorKey a := invokeLog s (actorKey a) @ [m]),
       tasks := [AwaitInvoke j (actorOrder s ! j) m]\<rparr>"
proof -
  let ?s0 = "s\<lparr>tasks := [], isDraining := False\<rparr>"
  let ?s1 = "s\<lparr>tasks := [], isDraining := True\<rparr>"
  have f0: "firstPending ?s0 j" using assms(2) firstPending_frame [of ?s0 s j] by simp
  have f1: "firstPending ?s1 j" using assms(2) firstPending_frame [of ?s1 s j] by simp
  have h: "hasPendingWork ?s0" using f0 by (rule firstPending_hasPendingWork)
  have d: "drainLoop now 0 ?s1 =
     (?s1\<lparr>actors := (actors ?s1)(actorOrder ?s1 ! j \<mapsto> a\<lparr>busy := True\<rparr>),
        invokeLog := (invokeLog ?s1)(actorKey a := invokeLog ?s1 (actorKey a) @ [m])\<rparr>,
      AwaitInvoke j (actorOrder ?s1 ! j) m)"
    using assms(3,4) by (intro drainLoop_first [OF f1]) simp_all
  have "step (Finally 0 now) s = finallyCallback now (s\<lparr>tasks := []\<rparr>)"
    using assms(1) by (simp add: step_def)
  also have "\<dots> = triggerDraining now ?s0"
    using h by (simp add: finallyCallback_def Let_def)
  also have "\<dots> = s\<lparr>isDraining := True,
       actors := (actors s)(actorOrder s ! j \<mapsto> a\<lparr>busy := True\<rparr>),
       invokeLog := (invokeLog s)(actorKey a := invokeLog s (actorKey a) @ [m]),
       tasks := [AwaitInvoke j (actorOrder s ! j) m]\<rparr>"
    using d by (simp add: triggerDraining_def)
  finally show ?thesis .
qed

text \<open>When the actor answers with a policy mode other than \<^verbatim>\<open>wait\<close> and
  \<^verbatim>\<open>reject\<close>, the head is shifted off and the loop of \<^verbatim>\<open>processActorQueue\<close> goes on
  with the next message of the same queue.\<close>

lemma settleInvoke_continue:
  assumes "actors s k = Some a" "actorKey a = k"
    "envelopeMode env \<noteq> Some ''wait''" "envelopeMode env \<noteq> Some ''reject''"
    "tasks s = [AwaitInvoke i k m]"
  shows "tl (queue a) = [] \<Longrightarrow>
           tasks (step (InvokeSettled 0 (Ok env) now) s) = [AwaitPersist i k] \<and>
           invokeLog (step (InvokeSettled 0 (Ok env) now) s) k = invokeLog s k \<and>
           actors (step (InvokeSettled 0 (Ok env) now) s) k = Some (a\<lparr>queue := []\<rparr>)"
    and "tl (queue a) = m' # ms \<Longrightarrow>
           tasks (step (InvokeSettled 0 (Ok env) now) s) = [AwaitInvoke i k m'] \<and>
           invokeLog (step (InvokeSettled 0 (Ok env) now) s) k = invokeLog s k @ [m'] \<and>
           actors (step (InvokeSettled 0 (Ok env) now) s) k = Some (a\<lparr>queue := m' # ms\<rparr>)"
proof -
  let ?sp = "spawnChildren a (envelopeSpawn env) s"
  let ?st = "settle (messageId m) (Resp 200 (OkBody (result env) (actorKey a))) ?sp"
  let ?a1 = "a\<lparr>queue := tl (queue a)\<rparr>"
  let ?s3 = "?st\<lparr>actors := (actors ?st)(k \<mapsto> ?a1)\<rparr>"
  have si: "settleInvoke now i k m (Ok env) s = whileLoop now i k ?a1 ?s3"
    using assms(1,3,4) by (simp add: settleInvoke_def Let_def)
  have st: "step (InvokeSettled 0 (Ok env) now) s =
      (fst (whileLoop now i k ?a1 ?s3))
        \<lparr>tasks := (tasks (fst (whileLoop now i k ?a1 ?s3)))[0 := snd (whileLoop now i k ?a1 ?s3)]\<rparr>"
    using assms(5) si by (simp add: step_def split_beta)
  have t3: "tasks ?s3 = [AwaitInvoke i k m]" "invokeLog ?s3 = invokeLog s"
    using assms(5) by (simp_all add: settle_frame spawnChildren_frame)
  show "tasks (step (InvokeSettled 0 (Ok env) now) s) = [AwaitPersist i k] \<and>
           invokeLog (step (InvokeSettled 0 (Ok env) now) s) k = invokeLog s k \<and>
           actors (step (InvokeSettled 0 (Ok env) now) s) k = Some (a\<lparr>queue := []\<rparr>)"
    if "tl (queue a) = []"
    unfolding st using that t3
    by (simp add: whileLoop_def persistActorState_frame)
  show "tasks (step (InvokeSettled 0 (Ok env) now) s) = [AwaitInvoke i k m'] \<and>
           invokeLog (step (InvokeSettled 0 (Ok env) now) s) k = invokeLog s k @ [m'] \<and>
           actors (step (InvokeSettled 0 (Ok env) now) s) k = Some (a\<lparr>queue := m' # ms\<rparr>)"
    if "tl (queue a) = m' # ms"
    unfolding st using that t3 assms(2)
    by (simp add: whileLoop_def)
qed

text \<open>An admitted route call appends its message to the key's queue; on a Router that
  is not draining it starts a cycle, which sends the head of the first entry with
  work.\<close>

lemma route_enqueues:
  assumes D: "data_inv s" and T: "task_inv s" and L: "lookupOrCreate b s = (a, s0)"
    and P: "payloadSize (body_payload b) \<le> maxPayloadBytes (policy a)"
    and Q: "length (queue a) < queueLimit (policy a)"
    and M: "msg = \<lparr>messageId = nextUuid s, payload = body_payload b, enqueuedAt = now\<rparr>"
    and S: "s' = step (Route (Some b) now) s"
  shows "enqueueLog s' (routeKey b) = enqueueLog s (routeKey b) @ [msg]"
    and "\<exists>a'. actors s' (routeKey b) = Some a' \<and> queue a' = queue a @ [msg]"
    and "isDraining s \<Longrightarrow> tasks s' = tasks s \<and> invokeLog s' = invokeLog s"
    and "\<not> isDraining s \<Longrightarrow>
         firstPending (enqueue (routeKey b) a (body_payload b) now s0) j \<Longrightarrow>
         actorOrder s0 ! j = routeKey b \<Longrightarrow>
         tasks s' = [AwaitInvoke j (routeKey b) (hd (queue a @ [msg]))] \<and>
         invokeLog s' (routeKey b) = invokeLog s (routeKey b) @ [hd (queue a @ [msg])]"
proof -
  let ?k = "routeKey b"
  let ?e = "enqueue ?k a (body_payload b) now s0"
  let ?a = "a\<lparr>queue := queue a @ [msg]\<rparr>"
  have hr: "s' = triggerDraining now ?e"
    using L P Q S by (simp add: step_def handleRoute_def)
  have s0: "nextUuid s0 = nextUuid s" "enqueueLog s0 = enqueueLog s"
    "invokeLog s0 = invokeLog s" "tasks s0 = tasks s" "isDraining s0 = isDraining s"
    using L by (auto simp: lookupOrCreate_def split: option.splits)
  have k: "actorKey a = ?k"
    using data_inv_actorD(1) [OF data_inv_lookupOrCreate [OF D L]] .
  have e: "actors ?e ?k = Some ?a" "enqueueLog ?e ?k = enqueueLog s ?k @ [msg]"
    "tasks ?e = tasks s" "isDraining ?e = isDraining s" "invokeLog ?e = invokeLog s"
    "actorOrder ?e = actorOrder s0"
    by (simp_all add: enqueue_def Let_def M s0)
  obtain s1 pc where d: "drainLoop now 0 (?e\<lparr>isDraining := True\<rparr>) = (s1, pc)"
    by (cases "drainLoop now 0 (?e\<lparr>isDraining := True\<rparr>)")
  have td: "\<not> isDraining s \<Longrightarrow> s' = s1\<lparr>tasks := tasks s1 @ [pc]\<rparr>"
    using hr d e(4) by (simp add: triggerDraining_def)
  have ti: "isDraining s \<Longrightarrow> s' = ?e"
    using hr e(4) by (simp add: triggerDraining_def)
  have q1: "\<exists>a'. actors s1 ?k = Some a' \<and> queue a' = queue a @ [msg]"
    using drainLoop_cases [OF d] e(1) by (auto split: if_splits)
  have l1: "enqueueLog s1 = enqueueLog ?e"
    using drainLoop_frame(4) [OF d] by simp
  show "enqueueLog s' ?k = enqueueLog s ?k @ [msg]"
    using td ti l1 e(2) by (cases "isDraining s") simp_all
  show "\<exists>a'. actors s' ?k = Some a' \<and> queue a' = queue a @ [msg]"
    using td ti q1 e(1) by (cases "isDraining s") simp_all
  show "tasks s' = tasks s \<and> invokeLog s' = invokeLog s" if "isDraining s"
    using ti [OF that] e(3,5) by simp
  show "tasks s' = [AwaitInvoke j ?k (hd (queue a @ [msg]))] \<and>
         invokeLog s' ?k = invokeLog s ?k @ [hd (queue a @ [msg])]"
    if nd: "\<not> isDraining s" and fp: "firstPending ?e j" and j: "actorOrder s0 ! j = ?k"
  proof -
    let ?e1 = "?e\<lparr>isDraining := True\<rparr>"
    have t0: "tasks s = []" using T nd by (simp add: task_inv_def)
    have f1: "firstPending ?e1 j" using fp firstPending_frame [of ?e1 ?e j] by simp
    have a1: "actors ?e1 (actorOrder ?e1 ! j) = Some ?a" using e(1,6) j by simp
    have qa: "queue ?a = hd (queue a @ [msg]) # tl (queue a @ [msg])" by simp
    from drainLoop_first [OF f1 a1 qa, of now] d
    have "s1 = ?e1\<lparr>actors := (actors ?e1)(actorOrder ?e1 ! j \<mapsto> ?a\<lparr>busy := True\<rparr>),
        invokeLog := (invokeLog ?e1)(actorKey ?a := invokeLog ?e1 (actorKey ?a) @
          [hd (queue a @ [msg])])\<rparr>"
      and "pc = AwaitInvoke j (actorOrder ?e1 ! j) (hd (queue a @ [msg]))"
      by simp_all
    then show ?thesis
      using td [OF nd] e(3,5,6) j k t0 by simp
  qed
qed

section \<open>FIFO delivery, one invocation at a time\<close>

lemma distinct_remdups_adj_sorted:
  "sorted (xs :: nat list) \<Longrightarrow> distinct (remdups_adj xs)"
  by (induction xs rule: remdups_adj.induct) auto

lemma sorted_subseq:
  assumes "sorted (xs :: nat list)" "sorted_wrt (<) ys" "set xs \<subseteq> set ys"
  shows "subseq (remdups_adj xs) ys"
proof -
  have ys: "sorted ys" "distinct ys"
    using assms(2) by (simp_all add: strict_sorted_iff)
  have "remdups_adj xs = filter (\<lambda>y. y \<in> set xs) ys"
  proof (rule sorted_distinct_set_unique)
    show "sorted (remdups_adj xs)" using assms(1) by simp
    show "distinct (remdups_adj xs)" using assms(1) by (rule distinct_remdups_adj_sorted)
    show "sorted (filter (\<lambda>y. y \<in> set xs) ys)" using ys(1) by (rule sorted_wrt_filter)
    show "distinct (filter (\<lambda>y. y \<in> set xs) ys)" using ys(2) by simp
    show "set (remdups_adj xs) = set (filter (\<lambda>y. y \<in> set xs) ys)"
      using assms(3) by auto
  qed
  then show ?thesis by simp
qed

lemma inFlight_le_length: "inFlight k s \<le> length (tasks s)"
  by (simp add: inFlight_def)

text \<open>
  C1. In every reachable state of the Router and for every actor key \<open>k\<close>:

  \<^item> the sequence of \<^verbatim>\<open>/invoke\<close> calls issued for the key (a call that threw and is
    issued again for the same head counted once) is a subsequence of the messages
    enqueued for the key, in enqueue order;
  \<^item> at most one call for the key is awaiting its answer;
  \<^item> a call that is awaiting its answer is for the head of the key's queue, with the key
    marked busy;
  \<^item> an admitted route call appends its message to the key's queue and to the messages
    enqueued for it; while a cycle is running it sends nothing, and on a Router that is
    not draining it starts a cycle, which sends the head of the key's queue when the key
    is the first with work;
  \<^item> when the actor answers the call in flight with a policy mode other than
    \<^verbatim>\<open>wait\<close> and \<^verbatim>\<open>reject\<close>, the head is shifted off and, in the same step, the next
    message of the queue (one enqueued later) is sent to the actor; when the queue is
    empty the coroutine goes on to persist the metadata;
  \<^item> when a drain cycle has ended and its \<^verbatim>\<open>.finally\<close> callback runs while the key is
    the first with work, a new cycle starts and sends the head of the key's queue.
\<close>

theorem router_fifo_single_flight:
  assumes "reachable s"
  shows "subseq (remdups_adj (map messageId (invokeLog s k))) (map messageId (enqueueLog s k)) \<and>
         inFlight k s \<le> 1 \<and>
         (\<forall>i m. AwaitInvoke i k m \<in> set (tasks s) \<longrightarrow>
            (\<exists>a. actors s k = Some a \<and> busy a \<and> queue a \<noteq> [] \<and> hd (queue a) = m)) \<and>
         (\<forall>b now a s0 j.
            routeKey b = k \<and> lookupOrCreate b s = (a, s0) \<and>
            payloadSize (body_payload b) \<le> maxPayloadBytes (policy a) \<and>
            length (queue a) < queueLimit (policy a) \<longrightarrow>
            enqueueLog (step (Route (Some b) now) s) k = enqueueLog s k @
              [\<lparr>messageId = nextUuid s, payload = body_payload b, enqueuedAt = now\<rparr>] \<and>
            (\<exists>a'. actors (step (Route (Some b) now) s) k = Some a' \<and>
               queue a' = queue a @
                 [\<lparr>messageId = nextUuid s, payload = body_payload b, enqueuedAt = now\<rparr>]) \<and>
            (isDraining s \<longrightarrow>
               tasks (step (Route (Some b) now) s) = tasks s \<and>
               invokeLog (step (Route (Some b) now) s) = invokeLog s) \<and>
            (\<not> isDraining s \<and> firstPending (enqueue k a (body_payload b) now s0) j \<and>
             actorOrder s0 ! j = k \<longrightarrow>
               tasks (step (Route (Some b) now) s) =
                 [AwaitInvoke j k (hd (queue a @
                    [\<lparr>messageId = nextUuid s, payload = body_payload b, enqueuedAt = now\<rparr>]))] \<and>
               invokeLog (step (Route (Some b) now) s) k = invokeLog s k @
                 [hd (queue a @
                    [\<lparr>messageId = nextUuid s, payload = body_payload b, enqueuedAt = now\<rparr>])])) \<and>
         (\<forall>tid i m a env now.
            tid < length (tasks s) \<and> tasks s ! tid = AwaitInvoke i k m \<and> actors s k = Some a \<and>
            envelopeMode env \<noteq> Some ''wait'' \<and> envelopeMode env \<noteq> Some ''reject'' \<longrightarrow>
            (case tl (queue a) of
               [] \<Rightarrow>
                 tasks (step (InvokeSettled tid (Ok env) now) s) = [AwaitPersist i k] \<and>
                 invokeLog (step (InvokeSettled tid (Ok env) now) s) k = invokeLog s k \<and>
                 actors (step (InvokeSettled tid (Ok env) now) s) k = Some (a\<lparr>queue := []\<rparr>)
             | m' # ms \<Rightarrow>
                 messageId m < messageId m' \<and>
                 tasks (step (InvokeSettled tid (Ok env) now) s) = [AwaitInvoke i k m'] \<and>
                 invokeLog (step (InvokeSettled tid (Ok env) now) s) k = invokeLog s k @ [m'] \<and>
                 actors (step (InvokeSettled tid (Ok env) now) s) k
                   = Some (a\<lparr>queue := m' # ms\<rparr>))) \<and>
         (\<forall>tid j a now.
            tid < length (tasks s) \<and> tasks s ! tid = Finished \<and> firstPending s j \<and>
            actorOrder s ! j = k \<and> actors s k = Some a \<longrightarrow>
            tasks (step (Finally tid now) s) = [AwaitInvoke j k (hd (queue a))] \<and>
            invokeLog (step (Finally tid now) s) k = invokeLog s k @ [hd (queue a)] \<and>
            actors (step (Finally tid now) s) k = Some (a\<lparr>busy := True\<rparr>))"
proof -
  have D: "data_inv s" and T: "task_inv s" using reachable_inv [OF assms] by simp_all
  have L: "logs_inv s" using D by (simp add: data_inv_def)
  have c1: "subseq (remdups_adj (map messageId (invokeLog s k))) (map messageId (enqueueLog s k))"
  proof (rule sorted_subseq)
    show "sorted (map messageId (invokeLog s k))" using L by (simp add: logs_inv_def)
    show "sorted_wrt (<) (map messageId (enqueueLog s k))" using L by (simp add: logs_inv_def)
    have "set (invokeLog s k) \<subseteq> set (enqueueLog s k)" using L by (simp add: logs_inv_def)
    then show "set (map messageId (invokeLog s k)) \<subseteq> set (map messageId (enqueueLog s k))"
      by auto
  qed
  have c2: "inFlight k s \<le> 1"
    using inFlight_le_length [of k s] T by (simp add: task_inv_def)
  have c3: "\<exists>a. actors s k = Some a \<and> busy a \<and> queue a \<noteq> [] \<and> hd (queue a) = m"
    if "AwaitInvoke i k m \<in> set (tasks s)" for i m
  proof -
    have "task_ok s (AwaitInvoke i k m)" using that T by (simp add: task_inv_def)
    then show ?thesis by (simp add: task_ok_def)
  qed
  have c4: "enqueueLog (step (Route (Some b) now) s) k = enqueueLog s k @
              [\<lparr>messageId = nextUuid s, payload = body_payload b, enqueuedAt = now\<rparr>] \<and>
            (\<exists>a'. actors (step (Route (Some b) now) s) k = Some a' \<and>
               queue a' = queue a @
                 [\<lparr>messageId = nextUuid s, payload = body_payload b, enqueuedAt = now\<rparr>]) \<and>
            (isDraining s \<longrightarrow>
               tasks (step (Route (Some b) now) s) = tasks s \<and>
               invokeLog (step (Route (Some b) now) s) = invokeLog s) \<and>
            (\<not> isDraining s \<and> firstPending (enqueue k a (body_payload b) now s0) j \<and>
             actorOrder s0 ! j = k \<longrightarrow>
               tasks (step (Route (Some b) now) s) =
                 [AwaitInvoke j k (hd (queue a @
                    [\<lparr>messageId = nextUuid s, payload = body_payload b, enqueuedAt = now\<rparr>]))] \<and>
               invokeLog (step (Route (Some b) now) s) k = invokeLog s k @
                 [hd (queue a @
                    [\<lparr>messageId = nextUuid s, payload = body_payload b, enqueuedAt = now\<rparr>])])"
    if h: "routeKey b = k \<and> lookupOrCreate b s = (a, s0) \<and>
            payloadSize (body_payload b) \<le> maxPayloadBytes (policy a) \<and>
            length (queue a) < queueLimit (policy a)" for b now a s0 j
  proof -
    have k: "routeKey b = k" and lc: "lookupOrCreate b s = (a, s0)"
      and p: "payloadSize (body_payload b) \<le> maxPayloadBytes (policy a)"
      and q: "length (queue a) < queueLimit (policy a)"
      using h by simp_all
    note re = route_enqueues [OF D T lc p q refl refl, where now = now, unfolded k]
    show ?thesis
      using re(1) re(2) re(3) re(4) [of j] by (intro conjI impI) simp_all
  qed
  have c5: "case tl (queue a) of
               [] \<Rightarrow>
                 tasks (step (InvokeSettled tid (Ok env) now) s) = [AwaitPersist i k] \<and>
                 invokeLog (step (InvokeSettled tid (Ok env) now) s) k = invokeLog s k \<and>
                 actors (step (InvokeSettled tid (Ok env) now) s) k = Some (a\<lparr>queue := []\<rparr>)
             | m' # ms \<Rightarrow>
                 messageId m < messageId m' \<and>
                 tasks (step (InvokeSettled tid (Ok env) now) s) = [AwaitInvoke i k m'] \<and>
                 invokeLog (step (InvokeSettled tid (Ok env) now) s) k = invokeLog s k @ [m'] \<and>
                 actors (step (InvokeSettled tid (Ok env) now) s) k
                   = Some (a\<lparr>queue := m' # ms\<rparr>)"
    if h: "tid < length (tasks s) \<and> tasks s ! tid = AwaitInvoke i k m \<and> actors s k = Some a \<and>
            envelopeMode env \<noteq> Some ''wait'' \<and> envelopeMode env \<noteq> Some ''reject''"
    for tid i m a env now
  proof -
    have tl: "tid < length (tasks s)" and tt: "tasks s ! tid = AwaitInvoke i k m"
      and a: "actors s k = Some a" and w: "envelopeMode env \<noteq> Some ''wait''"
      and r: "envelopeMode env \<noteq> Some ''reject''"
      using h by simp_all
    have t0: "tid = 0" and ts: "tasks s = [AwaitInvoke i k m]"
      using task_inv_single [OF T tl] tt by simp_all
    note aD = data_inv_actorD [OF D a]
    have "AwaitInvoke i k m \<in> set (tasks s)" using ts by simp
    from c3 [OF this] a have hd: "queue a \<noteq> []" "hd (queue a) = m" by simp_all
    note sc = settleInvoke_continue [OF a aD(1) w r ts, where now = now]
    show ?thesis
    proof (cases "tl (queue a)")
      case Nil
      then show ?thesis using sc(1) t0 by simp
    next
      case (Cons m' ms)
      have "queue a = m # m' # ms" using hd Cons by (cases "queue a") simp_all
      then have "messageId m < messageId m'" using aD(5) by simp
      then show ?thesis using sc(2) [OF Cons] Cons t0 by simp
    qed
  qed
  have c6: "tasks (step (Finally tid now) s) = [AwaitInvoke j k (hd (queue a))] \<and>
            invokeLog (step (Finally tid now) s) k = invokeLog s k @ [hd (queue a)] \<and>
            actors (step (Finally tid now) s) k = Some (a\<lparr>busy := True\<rparr>)"
    if h: "tid < length (tasks s) \<and> tasks s ! tid = Finished \<and> firstPending s j \<and>
            actorOrder s ! j = k \<and> actors s k = Some a" for tid j a now
  proof -
    have tl: "tid < length (tasks s)" and tt: "tasks s ! tid = Finished"
      and fp: "firstPending s j" and j: "actorOrder s ! j = k" and a: "actors s k = Some a"
      using h by simp_all
    have t0: "tid = 0" and ts: "tasks s = [Finished]"
      using task_inv_single [OF T tl] tt by simp_all
    note aD = data_inv_actorD [OF D a]
    have "queue a \<noteq> []" using fp j a by (simp add: firstPending_def pendingAt_def)
    then have qa: "queue a = hd (queue a) # tl (queue a)" by simp
    have a': "actors s (actorOrder s ! j) = Some a" using a j by simp
    show ?thesis
      unfolding t0 finally_sends_first [OF ts fp a' qa] using j aD(1) by simp
  qed
  show ?thesis
  proof (intro conjI)
    show "subseq (remdups_adj (map messageId (invokeLog s k))) (map messageId (enqueueLog s k))"
      by (rule c1)
    show "inFlight k s \<le> 1" by (rule c2)
  qed ((intro allI impI, (rule c3 c4 c5 c6), assumption)+)
qed

section \<open>Status of entries that live in memory\<close>

lemma map_of_map_set: "map_of (map_set k v sm) = (map_of sm)(k \<mapsto> v)"
  by (induction sm) auto

lemma set_map_set: "set (map_set k v sm) \<subseteq> insert (k, v) (set sm)"
  by (induction sm) (auto split: if_splits)

lemma keyed_map_set: "keyed sm \<Longrightarrow> st_actorKey v = k \<Longrightarrow> keyed (map_set k v sm)"
  using set_map_set [of k v sm] by (auto simp: keyed_def)

lemma keyed_map_of: "keyed sm \<Longrightarrow> map_of sm k = Some e \<Longrightarrow> st_actorKey e = k"
  by (auto simp: keyed_def dest!: map_of_SomeD)

lemma keyed_statusFromStorage: "keyed sm \<Longrightarrow> keyed (statusFromStorage ms sm)"
  by (induction ms sm rule: statusFromStorage.induct) (simp_all add: Let_def keyed_map_set)

lemma statusFromMemory_step:
  assumes "keyed sm" "p = [] \<or> prefix p (actorKey a)"
  shows "statusFromMemory p (a # rest) sm =
           statusFromMemory p rest
             (map_set (actorKey a)
                (case map_of sm (actorKey a) of
                   Some existing \<Rightarrow>
                     existing\<lparr>st_busy := busy a, st_queueLength := length (queue a),
                              st_policy := Some (policy a), st_fromMemory := True\<rparr>
                 | None \<Rightarrow>
                     \<lparr>st_actorKey = actorKey a, st_actorType = actorType a,
                      st_actorId = actorId a, st_busy = busy a,
                      st_queueLength = length (queue a), st_policy = Some (policy a),
                      st_metaUpdatedAt = None, st_fromStorage = False,
                      st_fromMemory = True\<rparr>) sm)"
  using assms(2) by (auto split: option.splits)

lemma statusFromMemory_keeps:
  assumes "keyed sm" "shows_actor a sm" "\<forall>a' \<in> set vs. actorKey a' = actorKey a \<longrightarrow> a' = a"
  shows "keyed (statusFromMemory p vs sm) \<and> shows_actor a (statusFromMemory p vs sm)"
  using assms
proof (induction vs arbitrary: sm)
  case Nil
  then show ?case by simp
next
  case (Cons v vs)
  show ?case
  proof (cases "p \<noteq> [] \<and> \<not> prefix p (actorKey v)")
    case True
    then show ?thesis using Cons by simp
  next
    case False
    let ?e = "case map_of sm (actorKey v) of
                   Some existing \<Rightarrow>
                     existing\<lparr>st_busy := busy v, st_queueLength := length (queue v),
                              st_policy := Some (policy v), st_fromMemory := True\<rparr>
                 | None \<Rightarrow>
                     \<lparr>st_actorKey = actorKey v, st_actorType = actorType v,
                      st_actorId = actorId v, st_busy = busy v,
                      st_queueLength = length (queue v), st_policy = Some (policy v),
                      st_metaUpdatedAt = None, st_fromStorage = False,
                      st_fromMemory = True\<rparr>"
    have eq: "statusFromMemory p (v # vs) sm = statusFromMemory p vs (map_set (actorKey v) ?e sm)"
      using False by (intro statusFromMemory_step [OF Cons.prems(1)]) auto
    have ke: "st_actorKey ?e = actorKey v"
      using keyed_map_of [OF Cons.prems(1)] by (auto split: option.splits)
    have k': "keyed (map_set (actorKey v) ?e sm)"
      by (rule keyed_map_set [OF Cons.prems(1) ke])
    have s': "shows_actor a (map_set (actorKey v) ?e sm)"
    proof (cases "actorKey v = actorKey a")
      case True
      then have "v = a" using Cons.prems(3) by simp
      then show ?thesis
        using ke by (auto simp: shows_actor_def map_of_map_set split: option.splits)
    next
      case False
      then show ?thesis
        using Cons.prems(2) by (simp add: shows_actor_def map_of_map_set)
    qed
    show ?thesis
      unfolding eq using Cons.prems(3) by (intro Cons.IH k' s') simp
  qed
qed

lemma statusFromMemory_shows:
  assumes "keyed sm" "a \<in> set vs" "p = [] \<or> prefix p (actorKey a)"
    "\<forall>a' \<in> set vs. actorKey a' = actorKey a \<longrightarrow> a' = a"
  shows "shows_actor a (statusFromMemory p vs sm)"
  using assms
proof (induction vs arbitrary: sm)
  case Nil
  then show ?case by simp
next
  case (Cons v vs)
  show ?case
  proof (cases "p \<noteq> [] \<and> \<not> prefix p (actorKey v)")
    case True
    then have "v \<noteq> a" using Cons.prems(3) by auto
    then show ?thesis using True Cons by simp
  next
    case False
    let ?e = "case map_of sm (actorKey v) of
                   Some existing \<Rightarrow>
                     existing\<lparr>st_busy := busy v, st_queueLength := length (queue v),
                              st_policy := Some (policy v), st_fromMemory := True\<rparr>
                 | None \<Rightarrow>
                     \<lparr>st_actorKey = actorKey v, st_actorType = actorType v,
                      st_actorId = actorId v, st_busy = busy v,
                      st_queueLength = length (queue v), st_policy = Some (policy v),
                      st_metaUpdatedAt = None, st_fromStorage = False,
                      st_fromMemory = True\<rparr>"
    have eq: "statusFromMemory p (v # vs) sm = statusFromMemory p vs (map_set (actorKey v) ?e sm)"
      using False by (intro statusFromMemory_step [OF Cons.prems(1)]) auto
    have ke: "st_actorKey ?e = actorKey v"
      using keyed_map_of [OF Cons.prems(1)] by (auto split: option.splits)
    have k': "keyed (map_set (actorKey v) ?e sm)"
      by (rule keyed_map_set [OF Cons.prems(1) ke])
    have uniq: "\<forall>a' \<in> set vs. actorKey a' = actorKey a \<longrightarrow> a' = a"
      using Cons.prems(4) by simp
    show ?thesis
    proof (cases "v = a")
      case True
      have "shows_actor a (map_set (actorKey v) ?e sm)"
        using True ke by (auto simp: shows_actor_def map_of_map_set split: option.splits)
      then show ?thesis
        unfolding eq using statusFromMemory_keeps [OF k' _ uniq] by simp
    next
      case ne: False
      then have "a \<in> set vs" using Cons.prems(2) by simp
      then show ?thesis
        unfolding eq using Cons.prems(3) uniq by (intro Cons.IH k') simp_all
    qed
  qed
qed

lemma actorValues_mem:
  "k \<in> set (actorOrder s) \<Longrightarrow> actors s k = Some a \<Longrightarrow> a \<in> set (actorValues s)"
  by (force simp: actorValues_def List.map_filter_def)

lemma actorValues_unique:
  assumes "data_inv s" "actors s k = Some a"
  shows "\<forall>a' \<in> set (actorValues s). actorKey a' = actorKey a \<longrightarrow> a' = a"
proof (intro ballI impI)
  fix a' assume "a' \<in> set (actorValues s)" and eq: "actorKey a' = actorKey a"
  then obtain k' where k': "actors s k' = Some a'"
    by (auto simp: actorValues_def List.map_filter_def)
  have "actorKey a' = k'" "actorKey a = k"
    using data_inv_actorD(1) [OF assms(1)] k' assms(2) by simp_all
  then show "a' = a" using eq k' assms(2) by simp
qed

lemma handleStatus_lists_actor:
  assumes "data_inv s" "actors s k = Some a"
    "prefix (case q of None \<Rightarrow> [] | Some p \<Rightarrow> p) k"
  shows "\<exists>e \<in> set (handleStatus q s).
           st_actorKey e = k \<and> st_busy e = busy a \<and> st_queueLength e = length (queue a) \<and>
           st_policy e = Some (policy a) \<and> st_fromMemory e"
proof -
  let ?p = "case q of None \<Rightarrow> [] | Some p \<Rightarrow> p"
  let ?sm = "statusFromStorage (storage_list (''meta:'' @ ?p) (storage s)) []"
  note aD = data_inv_actorD [OF assms(1,2)]
  have "keyed ?sm" by (rule keyed_statusFromStorage) (simp add: keyed_def)
  moreover have "a \<in> set (actorValues s)" using aD(2) assms(2) by (rule actorValues_mem)
  moreover have "?p = [] \<or> prefix ?p (actorKey a)" using assms(3) aD(1) by simp
  ultimately have "shows_actor a (statusFromMemory ?p (actorValues s) ?sm)"
    using actorValues_unique [OF assms(1,2)] by (rule statusFromMemory_shows)
  then obtain e where e: "map_of (statusFromMemory ?p (actorValues s) ?sm) k = Some e"
    "st_actorKey e = k" "st_busy e = busy a" "st_queueLength e = length (queue a)"
    "st_policy e = Some (policy a)" "st_fromMemory e"
    using aD(1) by (auto simp: shows_actor_def)
  have "e \<in> set (handleStatus q s)"
    using map_of_SomeD [OF e(1)] by (force simp: handleStatus_def Let_def)
  then show ?thesis using e by blast
qed

section \<open>Entries registered by route calls and by spawn hints\<close>

lemma triggerDraining_keys:
  "actorOrder (triggerDraining now s) = actorOrder s"
  "(actors (triggerDraining now s) k = None) = (actors s k = None)"
proof -
  obtain s1 pc where d: "drainLoop now 0 (s\<lparr>isDraining := True\<rparr>) = (s1, pc)"
    by (cases "drainLoop now 0 (s\<lparr>isDraining := True\<rparr>)")
  from drainLoop_cases [OF d]
  have "actorOrder s1 = actorOrder s \<and> (actors s1 k = None) = (actors s k = None)"
    by (auto split: if_splits)
  then show "actorOrder (triggerDraining now s) = actorOrder s"
    "(actors (triggerDraining now s) k = None) = (actors s k = None)"
    using d by (simp_all add: triggerDraining_def)
qed

text \<open>
  C10. When a route call with a JSON body arrives for a key that has no entry, the entry
  is created before the admission checks: after the call the key is in the map whatever
  the outcome, and when the call is rejected the only change to the map is the new idle
  entry, which a status call that matches the key reports with \<^verbatim>\<open>fromMemory\<close> true,
  queue length 0 and not busy. (A new entry has an empty queue, so the rejection is the
  one for the payload size.)
\<close>

theorem route_registers_before_admission:
  assumes "reachable s" "actors s (routeKey b) = None" "handleRoute (Some b) now s = (r, s')"
  shows "routeKey b \<in> set (actorOrder s') \<and> actors s' (routeKey b) \<noteq> None \<and>
     (\<forall>x. r = Some x \<longrightarrow>
        x = Resp 413 (ErrBody PayloadTooLarge) \<and>
        actors s' = (actors s)(routeKey b \<mapsto>
           freshActorState (routeKey b) (body_actorType b) (body_actorId b)) \<and>
        actorOrder s' = actorOrder s @ [routeKey b] \<and>
        (\<forall>q. prefix (case q of None \<Rightarrow> [] | Some p \<Rightarrow> p) (routeKey b) \<longrightarrow>
           (\<exists>e \<in> set (handleStatus q s').
              st_actorKey e = routeKey b \<and> st_fromMemory e \<and> st_queueLength e = 0 \<and>
              \<not> st_busy e)))"
proof -
  let ?k = "routeKey b"
  let ?fr = "freshActorState ?k (body_actorType b) (body_actorId b)"
  let ?s1 = "s\<lparr>actors := (actors s)(?k \<mapsto> ?fr), actorOrder := actorOrder s @ [?k]\<rparr>"
  have l: "lookupOrCreate b s = (?fr, ?s1)"
    using assms(2) by (simp add: lookupOrCreate_def)
  have D': "data_inv s'"
    using data_inv_handleRoute [of s "Some b" now] reachable_inv [OF assms(1)] assms(3) by simp
  show ?thesis
  proof (cases r)
    case None
    then have "s' = triggerDraining now (enqueue ?k ?fr (body_payload b) now ?s1)"
      using assms(3) l by (auto simp: handleRoute_def split: if_splits)
    then show ?thesis
      using None by (simp add: triggerDraining_keys enqueue_def Let_def)
  next
    case (Some x)
    then have s': "s' = ?s1" and x: "x = Resp 413 (ErrBody PayloadTooLarge)"
      using assms(3) l
      by (auto simp: handleRoute_def freshActorState_def default_policy_def split: if_splits)
    have a: "actors s' ?k = Some ?fr" using s' by simp
    have "\<exists>e \<in> set (handleStatus q s').
              st_actorKey e = ?k \<and> st_fromMemory e \<and> st_queueLength e = 0 \<and> \<not> st_busy e"
      if "prefix (case q of None \<Rightarrow> [] | Some p \<Rightarrow> p) ?k" for q
      using handleStatus_lists_actor [OF D' a that] by (auto simp: freshActorState_def)
    then show ?thesis using Some s' x by simp
  qed
qed

lemma childKey_inj: "childKey a c = childKey a c' \<longleftrightarrow> c = c'"
  by (simp add: childKey_def)

lemma spawnChildren_new:
  assumes "c \<in> set cs" "actors s (childKey a c) = None"
  shows "actors (spawnChildren a cs s) (childKey a c) =
           Some \<lparr>actorKey = childKey a c, actorType = actorType a, actorId = Some c,
                 busy = False, queue = [], policy = policy a\<rparr>"
  using assms
proof (induction cs arbitrary: s)
  case Nil
  then show ?case by simp
next
  case (Cons c' cs)
  show ?case
  proof (cases "c' = c")
    case True
    then show ?thesis
      using Cons.prems(2) by (simp add: spawnChildren_actors_old)
  next
    case False
    then have "c \<in> set cs" using Cons.prems(1) by simp
    then show ?thesis
      using False Cons.prems(2) by (auto simp: childKey_inj intro!: Cons.IH)
  qed
qed

lemma settleInvoke_other_key:
  assumes "actors s k = Some a" "k' \<noteq> k" "settleInvoke now i k m (Ok env) s = (s', pc)"
  shows "actors s' k' = actors (spawnChildren a (envelopeSpawn env) s) k'"
    "invokeLog s' k' = (if k' = actorKey a then invokeLog s' k' else invokeLog s k')"
proof -
  let ?s1 = "spawnChildren a (envelopeSpawn env) s"
  let ?s2 = "settle (messageId m) (Resp 200 (OkBody (result env) (actorKey a))) ?s1"
  let ?a1 = "a\<lparr>queue := tl (queue a)\<rparr>"
  let ?s3 = "?s2\<lparr>actors := (actors ?s2)(k \<mapsto> ?a1)\<rparr>"
  have "actors s' k' = actors ?s1 k' \<and>
    invokeLog s' k' = (if k' = actorKey a then invokeLog s' k' else invokeLog s k')"
  proof (cases "envelopeMode env = Some ''wait'' \<or> envelopeMode env = Some ''reject''")
    case True
    then show ?thesis
      using assms
      by (auto simp: settleInvoke_def Let_def persistActorState_frame settle_frame
            rejectAll_frame spawnChildren_frame)
  next
    case False
    then have w: "whileLoop now i k ?a1 ?s3 = (s', pc)"
      using assms by (simp add: settleInvoke_def Let_def)
    from whileLoop_cases [OF w] assms(2) show ?thesis
      by (auto simp: persistActorState_frame settle_frame spawnChildren_frame)
  qed
  then show "actors s' k' = actors (spawnChildren a (envelopeSpawn env) s) k'"
    "invokeLog s' k' = (if k' = actorKey a then invokeLog s' k' else invokeLog s k')"
    by simp_all
qed

text \<open>
  C5, as amended. When the answer to an invoke for an entry (say \<^verbatim>\<open>teacher:t1\<close>)
  carries a spawn hint \<open>c\<close> (say \<^verbatim>\<open>q1\<close>) and the key made of the entry's own actor type
  and \<open>c\<close> (\<^verbatim>\<open>teacher:q1\<close>) has no entry, the Router registers an idle entry for that key,
  with the policy of the parent; a status call for the parent's type lists it with queue
  length 0 and not busy; no invoke is sent to it by this step, and any invoke ever sent to
  it later is for a message that was routed to it.
\<close>

theorem spawn_registers_sibling:
  assumes "reachable s" "tid < length (tasks s)" "tasks s ! tid = AwaitInvoke i k m"
    "actors s k = Some a" "c \<in> set (envelopeSpawn env)" "actors s (childKey a c) = None"
    "s' = step (InvokeSettled tid (Ok env) now) s"
  shows "actors s' (childKey a c) =
           Some \<lparr>actorKey = childKey a c, actorType = actorType a, actorId = Some c,
                 busy = False, queue = [], policy = policy a\<rparr> \<and>
         (\<exists>e \<in> set (handleStatus (Some (template (actorType a) @ '':'')) s').
            st_actorKey e = childKey a c \<and> st_queueLength e = 0 \<and> \<not> st_busy e \<and>
            st_fromMemory e) \<and>
         invokeLog s' (childKey a c) = invokeLog s (childKey a c) \<and>
         (\<forall>es. set (invokeLog (run es s') (childKey a c))
                 \<subseteq> set (enqueueLog (run es s') (childKey a c)))"
proof -
  let ?ck = "childKey a c"
  let ?child = "\<lparr>actorKey = ?ck, actorType = actorType a, actorId = Some c,
                 busy = False, queue = [], policy = policy a\<rparr>"
  obtain s1 pc where si: "settleInvoke now i k m (Ok env) s = (s1, pc)"
    by (cases "settleInvoke now i k m (Ok env) s")
  have s': "s' = s1\<lparr>tasks := (tasks s1)[tid := pc]\<rparr>"
    using assms(2,3,7) si by (simp add: step_def)
  have ne: "?ck \<noteq> k" using assms(4,6) by auto
  have ak: "actorKey a = k"
    using data_inv_actorD(1) [OF _ assms(4)] reachable_inv [OF assms(1)] by simp
  have 1: "actors s' ?ck = Some ?child"
    using settleInvoke_other_key(1) [OF assms(4) ne si] spawnChildren_new [OF assms(5,6)] s'
    by simp
  have 2: "invokeLog s' ?ck = invokeLog s ?ck"
    using settleInvoke_other_key(2) [OF assms(4) ne si] ne ak s' by simp
  have R: "reachable s'" unfolding assms(7) by (rule reachable_step [OF assms(1)])
  have D: "data_inv s'" using reachable_inv [OF R] by simp
  have "prefix (case Some (template (actorType a) @ '':'') of None \<Rightarrow> [] | Some p \<Rightarrow> p) ?ck"
    by (simp add: childKey_def)
  from handleStatus_lists_actor [OF D 1 this]
  have 3: "\<exists>e \<in> set (handleStatus (Some (template (actorType a) @ '':'')) s').
            st_actorKey e = ?ck \<and> st_queueLength e = 0 \<and> \<not> st_busy e \<and> st_fromMemory e"
    by auto
  have 4: "set (invokeLog (run es s') ?ck) \<subseteq> set (enqueueLog (run es s') ?ck)" for es
    using reachable_inv [OF reachable_run [OF R, of es]]
    by (simp add: data_inv_def logs_inv_def)
  show ?thesis using 1 2 3 4 by blast
qed

section \<open>Admission, timeouts and the reject policy\<close>

lemma handleRoute_accept:
  assumes "actors s (routeKey b) = Some a"
    "payloadSize (body_payload b) \<le> maxPayloadBytes (policy a)"
    "length (queue a) < queueLimit (policy a)" "isDraining s"
  shows "handleRoute (Some b) now s = (None, enqueue (routeKey b) a (body_payload b) now s)"
  using assms
  by (simp add: handleRoute_def lookupOrCreate_def triggerDraining_def enqueue_def Let_def)

lemma handleRoute_full:
  assumes "actors s (routeKey b) = Some a"
    "payloadSize (body_payload b) \<le> maxPayloadBytes (policy a)"
    "length (queue a) = queueLimit (policy a)"
  shows "handleRoute (Some b) now s = (Some (Resp 429 (ErrBody QueueIsFull)), s)"
  using assms by (simp add: handleRoute_def lookupOrCreate_def)

lemma settleInvoke_actor:
  assumes "actors s k = Some a" "outcome \<noteq> Threw" "settleInvoke now i k m outcome s = (s', pc)"
  shows "\<exists>a'. actors s' k = Some a' \<and> policy a' = policy a \<and> busy a' = busy a \<and>
           (queue a' = tl (queue a) \<or> queue a' = [])"
proof (cases outcome)
  case Threw
  then show ?thesis using assms(2) by simp
next
  case (NotOk st)
  then show ?thesis
    using assms(1,3) by (auto simp: settleInvoke_def Let_def persistActorState_frame)
next
  case (Ok env)
  let ?s1 = "spawnChildren a (envelopeSpawn env) s"
  let ?s2 = "settle (messageId m) (Resp 200 (OkBody (result env) (actorKey a))) ?s1"
  let ?a1 = "a\<lparr>queue := tl (queue a)\<rparr>"
  let ?s3 = "?s2\<lparr>actors := (actors ?s2)(k \<mapsto> ?a1)\<rparr>"
  show ?thesis
  proof (cases "envelopeMode env = Some ''wait'' \<or> envelopeMode env = Some ''reject''")
    case True
    then show ?thesis
      using assms(1,3) Ok
      by (auto simp: settleInvoke_def Let_def persistActorState_frame)
  next
    case False
    then have w: "whileLoop now i k ?a1 ?s3 = (s', pc)"
      using assms(1,3) Ok by (simp add: settleInvoke_def Let_def)
    from whileLoop_cases [OF w] show ?thesis
      by (auto simp: persistActorState_frame)
  qed
qed

text \<open>
  C2. For a route call whose payload is within the size limit: in every reachable state the
  queue of a key is no longer than the queue limit of its policy; when it is exactly that
  long, \<^verbatim>\<open>handleRoute\<close> answers 429 \<^verbatim>\<open>Queue is full\<close> and the Router is left exactly as
  it was; and once the invoke in flight for the key has been answered, so that its message
  leaves the queue, the queue is shorter than the limit and the same route call is admitted:
  its message is appended to the queue and its resolver registered.
\<close>

theorem queue_limit_backpressure:
  assumes "reachable s" "actors s (routeKey b) = Some a"
    "payloadSize (body_payload b) \<le> maxPayloadBytes (policy a)"
  shows "length (queue a) \<le> queueLimit (policy a) \<and>
     (length (queue a) = queueLimit (policy a) \<longrightarrow>
        handleRoute (Some b) now s = (Some (Resp 429 (ErrBody QueueIsFull)), s)) \<and>
     (\<forall>tid i m outcome t.
        tid < length (tasks s) \<and> tasks s ! tid = AwaitInvoke i (routeKey b) m \<and>
        outcome \<noteq> Threw \<longrightarrow>
        (\<exists>a'. actors (step (InvokeSettled tid outcome t) s) (routeKey b) = Some a' \<and>
           length (queue a') < queueLimit (policy a') \<and>
           handleRoute (Some b) now (step (InvokeSettled tid outcome t) s) =
             (None,
              enqueue (routeKey b) a' (body_payload b) now (step (InvokeSettled tid outcome t) s)) \<and>
           actors (enqueue (routeKey b) a' (body_payload b) now
                     (step (InvokeSettled tid outcome t) s)) (routeKey b) =
             Some (a'\<lparr>queue := queue a' @
                [\<lparr>messageId = nextUuid (step (InvokeSettled tid outcome t) s),
                  payload = body_payload b, enqueuedAt = now\<rparr>]\<rparr>) \<and>
           nextUuid (step (InvokeSettled tid outcome t) s)
             \<in> set (pendingResults (enqueue (routeKey b) a' (body_payload b) now
                     (step (InvokeSettled tid outcome t) s)))))"
proof (intro conjI allI impI)
  have D: "data_inv s" and T: "task_inv s" using reachable_inv [OF assms(1)] by simp_all
  note aD = data_inv_actorD [OF D assms(2)]
  show le: "length (queue a) \<le> queueLimit (policy a)" using aD by simp
  show "handleRoute (Some b) now s = (Some (Resp 429 (ErrBody QueueIsFull)), s)"
    if "length (queue a) = queueLimit (policy a)"
    by (rule handleRoute_full [OF assms(2,3) that])
  fix tid i m outcome t
  assume h: "tid < length (tasks s) \<and> tasks s ! tid = AwaitInvoke i (routeKey b) m \<and>
        outcome \<noteq> Threw"
  let ?s' = "step (InvokeSettled tid outcome t) s"
  obtain s1 pc where si: "settleInvoke t i (routeKey b) m outcome s = (s1, pc)"
    by (cases "settleInvoke t i (routeKey b) m outcome s")
  have s': "?s' = s1\<lparr>tasks := (tasks s1)[tid := pc]\<rparr>"
    using h si by (simp add: step_def)
  have ok: "task_ok s (AwaitInvoke i (routeKey b) m)"
    using T h by (auto simp: task_inv_def dest: nth_mem)
  then have ne: "queue a \<noteq> []" using assms(2) by (simp add: task_ok_def)
  from settleInvoke_actor [OF assms(2) _ si] h obtain a' where
    a': "actors s1 (routeKey b) = Some a'" "policy a' = policy a"
      "queue a' = tl (queue a) \<or> queue a' = []"
    by blast
  have lt: "length (queue a') < queueLimit (policy a')"
    using a'(2,3) le ne by (cases "queue a") auto
  have dr: "isDraining ?s'"
    using reachable_inv [OF reachable_step [OF assms(1), of "InvokeSettled tid outcome t"]]
      s' h settleInvoke_task(2) [OF ok si]
    by (auto simp: task_inv_def)
  have a'': "actors ?s' (routeKey b) = Some a'" using a'(1) s' by simp
  have acc: "handleRoute (Some b) now ?s' = (None, enqueue (routeKey b) a' (body_payload b) now ?s')"
    using handleRoute_accept [OF a'' _ lt dr] assms(3) a'(2) by simp
  show "\<exists>a'. actors ?s' (routeKey b) = Some a' \<and>
           length (queue a') < queueLimit (policy a') \<and>
           handleRoute (Some b) now ?s' = (None, enqueue (routeKey b) a' (body_payload b) now ?s') \<and>
           actors (enqueue (routeKey b) a' (body_payload b) now ?s') (routeKey b) =
             Some (a'\<lparr>queue := queue a' @
                [\<lparr>messageId = nextUuid ?s', payload = body_payload b, enqueuedAt = now\<rparr>]\<rparr>) \<and>
           nextUuid ?s' \<in> set (pendingResults (enqueue (routeKey b) a' (body_payload b) now ?s'))"
    using a'' lt acc by (intro exI [of _ a']) (simp add: enqueue_def Let_def)
qed

lemma answered_settle: "answered mid rs s \<Longrightarrow> answered mid rs (settle x r s)"
  by (auto simp: answered_def settle_def)

lemma answered_rejectAll: "answered mid rs s \<Longrightarrow> answered mid rs (rejectAll ms s)"
  by (induction ms arbitrary: s) (simp_all add: answered_settle)

lemma answered_frame:
  "answered mid rs s \<Longrightarrow> nextUuid s' = nextUuid s \<Longrightarrow> pendingResults s' = pendingResults s \<Longrightarrow>
   settled s' = settled s \<Longrightarrow> answered mid rs s'"
  by (simp add: answered_def)

lemma answered_triggerDraining: "answered mid rs s \<Longrightarrow> answered mid rs (triggerDraining now s)"
proof -
  assume a: "answered mid rs s"
  obtain s1 pc where d: "drainLoop now 0 (s\<lparr>isDraining := True\<rparr>) = (s1, pc)"
    by (cases "drainLoop now 0 (s\<lparr>isDraining := True\<rparr>)")
  show ?thesis
    using a d drainLoop_frame [OF d]
    by (auto simp: triggerDraining_def answered_def)
qed

lemma answered_handleRoute: "answered mid rs s \<Longrightarrow> answered mid rs (snd (handleRoute body now s))"
proof (cases body)
  case None
  assume "answered mid rs s" then show ?thesis using None by (simp add: handleRoute_def)
next
  case (Some b)
  assume a: "answered mid rs s"
  obtain a0 s1 where l: "lookupOrCreate b s = (a0, s1)" by (cases "lookupOrCreate b s")
  have 1: "answered mid rs s1"
    using a l by (auto simp: lookupOrCreate_def answered_def split: option.splits)
  have 2: "answered mid rs (enqueue (routeKey b) a0 (body_payload b) now s1)"
    using 1 by (auto simp: enqueue_def Let_def answered_def)
  show ?thesis
    using Some l 1 2 by (simp add: handleRoute_def answered_triggerDraining)
qed

lemma answered_whileLoop:
  "answered mid rs s \<Longrightarrow> whileLoop now i k a s = (s', pc) \<Longrightarrow> answered mid rs s'"
  by (auto dest!: whileLoop_cases simp: answered_def persistActorState_frame)

lemma answered_settleInvoke:
  assumes "answered mid rs s" "settleInvoke now i k m outcome s = (s', pc)"
  shows "answered mid rs s'"
proof (cases "actors s k")
  case None
  then show ?thesis using assms by (simp add: settleInvoke_def)
next
  case (Some a)
  show ?thesis
  proof (cases outcome)
    case Threw
    then show ?thesis using assms Some by (auto simp: settleInvoke_def answered_def)
  next
    case (NotOk st)
    have "answered mid rs (settle (messageId m) (Resp 504 (ErrBody (ActorDOError st))) s)"
      by (rule answered_settle [OF assms(1)])
    then show ?thesis
      using assms(2) Some NotOk
      by (auto simp: settleInvoke_def Let_def answered_def persistActorState_frame)
  next
    case (Ok env)
    let ?s1 = "spawnChildren a (envelopeSpawn env) s"
    let ?s2 = "settle (messageId m) (Resp 200 (OkBody (result env) (actorKey a))) ?s1"
    let ?a1 = "a\<lparr>queue := tl (queue a)\<rparr>"
    let ?s3 = "?s2\<lparr>actors := (actors ?s2)(k \<mapsto> ?a1)\<rparr>"
    have 1: "answered mid rs ?s1"
      using assms(1) by (rule answered_frame) (simp_all add: spawnChildren_frame)
    have 3: "answered mid rs ?s3"
      using answered_settle [OF 1] by (rule answered_frame) simp_all
    have 4: "answered mid rs (rejectAll (queue ?a1) ?s3)"
      by (rule answered_rejectAll [OF 3])
    show ?thesis
    proof (cases "envelopeMode env = Some ''wait'' \<or> envelopeMode env = Some ''reject''")
      case True
      then show ?thesis
        using assms(2) Some Ok 3 4
        by (auto simp: settleInvoke_def Let_def answered_def persistActorState_frame)
    next
      case False
      then have w: "whileLoop now i k ?a1 ?s3 = (s', pc)"
        using assms(2) Some Ok by (simp add: settleInvoke_def Let_def)
      show ?thesis by (rule answered_whileLoop [OF 3 w])
    qed
  qed
qed

lemma answered_step: "answered mid rs s \<Longrightarrow> answered mid rs (step e s)"
proof (cases e)
  case (Route body now)
  assume "answered mid rs s" then show ?thesis
    using Route by (simp add: step_def answered_handleRoute)
next
  case (Timeout x)
  assume "answered mid rs s" then show ?thesis
    using Timeout by (simp add: step_def timeoutFired_def answered_settle)
next
  case (InvokeSettled tid outcome now)
  assume a: "answered mid rs s"
  show ?thesis
  proof (cases "tid < length (tasks s)")
    case False
    then show ?thesis using a InvokeSettled by (simp add: step_def)
  next
    case True
    show ?thesis
    proof (cases "tasks s ! tid")
      case (AwaitInvoke i k m)
      obtain s' pc where si: "settleInvoke now i k m outcome s = (s', pc)"
        by (cases "settleInvoke now i k m outcome s")
      have "answered mid rs (s'\<lparr>tasks := (tasks s')[tid := pc]\<rparr>)"
        using answered_settleInvoke [OF a si] by (rule answered_frame) simp_all
      then show ?thesis using InvokeSettled True AwaitInvoke si by (simp add: step_def)
    next
      case (AwaitPersist i k)
      then show ?thesis using a InvokeSettled True by (simp add: step_def)
    next
      case Finished
      then show ?thesis using a InvokeSettled True by (simp add: step_def)
    qed
  qed
next
  case (PersistSettled tid now)
  assume a: "answered mid rs s"
  show ?thesis
  proof (cases "tid < length (tasks s)")
    case False
    then show ?thesis using a PersistSettled by (simp add: step_def)
  next
    case True
    show ?thesis
    proof (cases "tasks s ! tid")
      case (AwaitPersist i k)
      obtain s' pc where si: "settlePersist now i k s = (s', pc)"
        by (cases "settlePersist now i k s")
      have "answered mid rs s'"
        using a si drainLoop_frame [of now "Suc i" _ s' pc]
        by (auto simp: settlePersist_def answered_def)
      then have "answered mid rs (s'\<lparr>tasks := (tasks s')[tid := pc]\<rparr>)"
        by (rule answered_frame) simp_all
      then show ?thesis using PersistSettled True AwaitPersist si by (simp add: step_def)
    next
      case (AwaitInvoke i k m)
      then show ?thesis using a PersistSettled True by (simp add: step_def)
    next
      case Finished
      then show ?thesis using a PersistSettled True by (simp add: step_def)
    qed
  qed
next
  case (Finally tid now)
  assume a: "answered mid rs s"
  have "answered mid rs (finallyCallback now (s\<lparr>tasks := take tid (tasks s) @ drop (Suc tid) (tasks s)\<rparr>))"
    using a
    by (auto simp: finallyCallback_def Let_def intro!: answered_triggerDraining
          elim: answered_frame)
  then show ?thesis using a Finally by (simp add: step_def)
next
  case (AdminReset p)
  assume a: "answered mid rs s"
  have "\<And>ks s. nextUuid (adminResetLoop ks s) = nextUuid s \<and>
      pendingResults (adminResetLoop ks s) = pendingResults s \<and>
      settled (adminResetLoop ks s) = settled s"
  proof -
    fix ks s
    show "nextUuid (adminResetLoop ks s) = nextUuid s \<and>
      pendingResults (adminResetLoop ks s) = pendingResults s \<and>
      settled (adminResetLoop ks s) = settled s"
      by (induction ks arbitrary: s) (simp_all add: Let_def)
  qed
  then have "answered mid rs (snd (adminReset p s))"
    using a by (intro answered_frame [OF a]) (simp_all add: adminReset_def Let_def)
  then show ?thesis using AdminReset by (simp add: step_def)
qed

lemma answered_run: "answered mid rs s \<Longrightarrow> answered mid rs (run es s)"
  by (induction es arbitrary: s) (simp_all add: answered_step)

text \<open>
  C4. When the timer of a route call fires while the call is still waiting, the entry of
  the call is deleted and the call answers 504 \<^verbatim>\<open>Processing timeout\<close>; the queues are
  not touched, so the message stays queued. From then on, whatever the Router does (in
  particular when a drain cycle processes that message), the call has no entry in
  \<open>pendingResults\<close> and is given no other answer.
\<close>

theorem timeout_discards_result:
  assumes "reachable s" "mid \<in> set (pendingResults s)"
  shows "actors (step (Timeout mid) s) = actors s \<and>
         settled (step (Timeout mid) s) = settled s @ [(mid, Resp 504 (ErrBody ProcessingTimeout))] \<and>
         (\<forall>es. mid \<notin> set (pendingResults (run es (step (Timeout mid) s))) \<and>
               filter (\<lambda>e. fst e = mid) (settled (run es (step (Timeout mid) s))) =
                 [(mid, Resp 504 (ErrBody ProcessingTimeout))])"
proof -
  have P: "pending_inv s" using reachable_inv [OF assms(1)] by (simp add: data_inv_def)
  have 1: "filter (\<lambda>e. fst e = mid) (settled s) = []"
    using P assms(2) by (auto simp: pending_inv_def filter_empty_conv)
  have 2: "mid < nextUuid s" using P assms(2) by (simp add: pending_inv_def)
  have st: "step (Timeout mid) s =
      s\<lparr>settled := settled s @ [(mid, Resp 504 (ErrBody ProcessingTimeout))],
        pendingResults := removeAll mid (pendingResults s)\<rparr>"
    using assms(2) by (simp add: step_def timeoutFired_def settle_def)
  have "answered mid [(mid, Resp 504 (ErrBody ProcessingTimeout))] (step (Timeout mid) s)"
    unfolding st using 1 2 by (simp add: answered_def)
  from answered_run [OF this] show ?thesis
    unfolding st by (simp add: answered_def)
qed





section \<open>The example runs\<close>

lemma exBody_simps:
  "routeKey exBody = ''room:r1''" "body_payload exBody = Truthy ''{}''"
  "body_actorType exBody = Some ''room''" "body_actorId exBody = Some ''r1''"
  by (simp_all add: routeKey_def exBody_def template_def)

lemma exQ_first: "step (Route (Some exBody) 0) (init []) = exQ 1"
  by (simp add: step_def handleRoute_def lookupOrCreate_def enqueue_def exBody_simps
        init_def freshActorState_def payloadSize_def default_policy_def
        triggerDraining_def drainLoop.simps processActorQueue_def whileLoop_def Let_def
        exQ_def exActor_def exMsg_def)

lemma exQ_next:
  assumes "0 < n" "n < 100"
  shows "step (Route (Some exBody) 0) (exQ n) = exQ (Suc n)"
proof -
  have 1: "actors (exQ n) (routeKey exBody) = Some (exActor True (map exMsg [0..<n]))"
    by (simp add: exBody_simps exQ_def)
  have "handleRoute (Some exBody) 0 (exQ n) =
      (None, enqueue (routeKey exBody) (exActor True (map exMsg [0..<n]))
               (body_payload exBody) 0 (exQ n))"
    using assms
    by (intro handleRoute_accept [OF 1])
       (simp_all add: exActor_def default_policy_def payloadSize_def exBody_simps exQ_def)
  then show ?thesis
    by (simp add: step_def enqueue_def Let_def exBody_simps exQ_def exActor_def exMsg_def)
qed

lemma exQ_run:
  "n < 100 \<Longrightarrow> run (replicate (Suc n) (Route (Some exBody) 0)) (init []) = exQ (Suc n)"
proof (induction n)
  case 0
  then show ?case by (simp add: exQ_first)
next
  case (Suc n)
  have "replicate (Suc (Suc n)) (Route (Some exBody) 0)
      = replicate (Suc n) (Route (Some exBody) 0) @ [Route (Some exBody) 0]"
    by (simp add: replicate_append_same)
  then show ?case
    using Suc by (simp only: run_append) (simp add: exQ_next)
qed

lemma reachable_exQ: "0 < n \<Longrightarrow> n \<le> 100 \<Longrightarrow> reachable (exQ n)"
  using exQ_run [of "n - 1"]
    reachable_run [OF reachable_init, of "replicate n (Route (Some exBody) 0)" "[]"]
  by (cases n) simp_all

lemma exQ_fields:
  "tasks (exQ n) = [AwaitInvoke 0 ''room:r1'' (exMsg 0)]"
  "actors (exQ n) ''room:r1'' = Some (exActor True (map exMsg [0..<n]))"
  "pendingResults (exQ n) = [0..<n]"
  "invokeLog (exQ n) ''room:r1'' = [exMsg 0]"
  "enqueueLog (exQ n) ''room:r1'' = map exMsg [0..<n]"
  by (simp_all add: exQ_def)

lemma exT_steps:
  "step (Route (Some exTBody) 0) (init []) = exT1"
  "step (InvokeSettled 0 (Ok exSpawnEnv) 7) exT1 = exT2"
  "step (PersistSettled 0 8) exT2 = exT3"
  "step (Finally 0 9) exT3 = exT4"
proof -
  show "step (Route (Some exTBody) 0) (init []) = exT1"
    by (simp add: step_def handleRoute_def lookupOrCreate_def enqueue_def routeKey_def
        exTBody_def template_def init_def freshActorState_def payloadSize_def
        default_policy_def triggerDraining_def drainLoop.simps processActorQueue_def
        whileLoop_def Let_def exT1_def exTActor_def exMsg_def)
  show "step (InvokeSettled 0 (Ok exSpawnEnv) 7) exT1 = exT2"
    by (simp add: step_def settleInvoke_def exT1_def exT2_def exTActor_def exSpawnEnv_def
        envelopeSpawn_def envelopeMode_def childKey_def template_def settle_def
        whileLoop_def persistActorState_def exTMeta_def exMsg_def Let_def fun_upd_twist)
  show "step (PersistSettled 0 8) exT2 = exT3"
    by (simp add: step_def settlePersist_def exT2_def exT3_def exTActor_def
        drainLoop.simps Let_def)
  show "step (Finally 0 9) exT3 = exT4"
    by (simp add: step_def finallyCallback_def hasPendingWork_def exT3_def exT4_def
        exTActor_def Let_def)
qed

lemma exT_run:
  "run [Route (Some exTBody) 0, InvokeSettled 0 (Ok exSpawnEnv) 7, PersistSettled 0 8,
        Finally 0 9] (init []) = exT4"
  by (simp add: exT_steps)


lemma upt_2: "[0..<2] = [0, 1]"
  by (simp add: upt_rec)


lemma exW_steps:
  "step (InvokeSettled 0 (Ok exWaitEnv) 6) (exQ 2) = exW1"
  "step (PersistSettled 0 7) exW1 = exW2"
proof -
  show "step (InvokeSettled 0 (Ok exWaitEnv) 6) (exQ 2) = exW1"
    by (simp add: step_def settleInvoke_def exQ_def exW1_def exActor_def exWaitEnv_def
        envelopeSpawn_def envelopeMode_def settle_def persistActorState_def exWMeta_def
        exMsg_def Let_def upt_2)
  show "step (PersistSettled 0 7) exW1 = exW2"
    by (simp add: step_def settlePersist_def exW1_def exW2_def exActor_def
        drainLoop.simps Let_def)
qed

lemma reachable_exW2: "reachable exW2"
proof -
  have "reachable (exQ 2)" by (rule reachable_exQ) simp_all
  then have "reachable (step (PersistSettled 0 7) (step (InvokeSettled 0 (Ok exWaitEnv) 6) (exQ 2)))"
    by (intro reachable_step)
  then show ?thesis by (simp only: exW_steps)
qed

section \<open>The theorems at the example runs\<close>

text \<open>C1 at three Routers. At a new Router, a route call for \<^verbatim>\<open>room:r1\<close> sends its
  message at once. At the Router with two messages routed to \<^verbatim>\<open>room:r1\<close>, the first one
  sent to the actor, the answer to the first sends the second. When the first is answered
  with the policy mode \<^verbatim>\<open>wait\<close> instead, the cycle ends with the second still queued,
  and the \<^verbatim>\<open>.finally\<close> callback sends it.\<close>

theorem router_fifo_single_flight_witness:
  "reachable (init []) \<and> reachable (exQ 2) \<and> reachable exW2 \<and>
   tasks (step (Route (Some exBody) 0) (init [])) = [AwaitInvoke 0 ''room:r1'' (exMsg 0)] \<and>
   invokeLog (step (Route (Some exBody) 0) (init [])) ''room:r1'' = [exMsg 0] \<and>
   enqueueLog (step (Route (Some exBody) 0) (init [])) ''room:r1'' = [exMsg 0] \<and>
   tasks (exQ 2) = [AwaitInvoke 0 ''room:r1'' (exMsg 0)] \<and>
   map messageId (invokeLog (exQ 2) ''room:r1'') = [0] \<and>
   map messageId (enqueueLog (exQ 2) ''room:r1'') = [0, 1] \<and>
   subseq (remdups_adj (map messageId (invokeLog (exQ 2) ''room:r1'')))
     (map messageId (enqueueLog (exQ 2) ''room:r1'')) \<and>
   inFlight ''room:r1'' (exQ 2) \<le> 1 \<and>
   (\<exists>a. actors (exQ 2) ''room:r1'' = Some a \<and> busy a \<and> queue a \<noteq> [] \<and>
      hd (queue a) = exMsg 0) \<and>
   tasks (step (InvokeSettled 0 (Ok exEnv) 6) (exQ 2)) = [AwaitInvoke 0 ''room:r1'' (exMsg 1)] \<and>
   map messageId (invokeLog (step (InvokeSettled 0 (Ok exEnv) 6) (exQ 2)) ''room:r1'') = [0, 1] \<and>
   run [InvokeSettled 0 (Ok exWaitEnv) 6, PersistSettled 0 7] (exQ 2) = exW2 \<and>
   tasks exW2 = [Finished] \<and>
   map messageId (invokeLog exW2 ''room:r1'') = [0] \<and>
   tasks (step (Finally 0 8) exW2) = [AwaitInvoke 0 ''room:r1'' (exMsg 1)] \<and>
   map messageId (invokeLog (step (Finally 0 8) exW2) ''room:r1'') = [0, 1]"
proof -
  let ?k = "''room:r1''"
  have r: "reachable (exQ 2)" by (rule reachable_exQ) simp_all
  note th0 = router_fifo_single_flight [OF reachable_init [of "[]"], where k = ?k]
  note th1 = router_fifo_single_flight [OF r, where k = ?k]
  note th2 = router_fifo_single_flight [OF reachable_exW2, where k = ?k]
  let ?f = "freshActorState ?k (Some ''room'') (Some ''r1'')"
  let ?s0 = "(init [])\<lparr>actors := (actors (init []))(?k \<mapsto> ?f), actorOrder := [?k]\<rparr>"
  have m0: "\<lparr>messageId = nextUuid (init []), payload = body_payload exBody, enqueuedAt = 0\<rparr>
      = exMsg 0"
    by (simp add: init_def exBody_simps exMsg_def)
  have h0: "routeKey exBody = ?k \<and> lookupOrCreate exBody (init []) = (?f, ?s0) \<and>
      payloadSize (body_payload exBody) \<le> maxPayloadBytes (policy ?f) \<and>
      length (queue ?f) < queueLimit (policy ?f)"
    by (simp add: exBody_simps lookupOrCreate_def init_def freshActorState_def
          payloadSize_def default_policy_def)
  have g0: "\<not> isDraining (init []) \<and>
      firstPending (enqueue ?k ?f (body_payload exBody) 0 ?s0) 0 \<and> actorOrder ?s0 ! 0 = ?k"
    by (simp add: init_def firstPending_def pendingAt_def enqueue_def Let_def
          freshActorState_def)
  note p0 = th0 [THEN conjunct2, THEN conjunct2, THEN conjunct2, THEN conjunct1,
      rule_format, OF h0, where now = 0 and j = 0, unfolded m0]
  have q0: "queue ?f = []" "invokeLog (init []) ?k = []" "enqueueLog (init []) ?k = []"
    by (simp_all add: freshActorState_def init_def)
  have w0: "tasks (step (Route (Some exBody) 0) (init [])) = [AwaitInvoke 0 ?k (exMsg 0)]"
    "invokeLog (step (Route (Some exBody) 0) (init [])) ?k = [exMsg 0]"
    "enqueueLog (step (Route (Some exBody) 0) (init [])) ?k = [exMsg 0]"
    using p0 g0 q0 by simp_all
  have t: "tasks (exQ 2) = [AwaitInvoke 0 ?k (exMsg 0)]"
    by (simp add: exQ_fields)
  have l: "map messageId (invokeLog (exQ 2) ?k) = [0]"
    "map messageId (enqueueLog (exQ 2) ?k) = [0, 1]"
    by (simp_all add: exQ_fields exMsg_def upt_2)
  have a: "actors (exQ 2) ?k = Some (exActor True [exMsg 0, exMsg 1])"
    by (simp add: exQ_fields upt_2)
  have w1: "subseq (remdups_adj (map messageId (invokeLog (exQ 2) ?k)))
      (map messageId (enqueueLog (exQ 2) ?k))"
    "inFlight ?k (exQ 2) \<le> 1"
    using th1 by simp_all
  have "AwaitInvoke 0 ?k (exMsg 0) \<in> set (tasks (exQ 2))" using t by simp
  from th1 [THEN conjunct2, THEN conjunct2, THEN conjunct1, rule_format, OF this]
  have w2: "\<exists>a. actors (exQ 2) ?k = Some a \<and> busy a \<and> queue a \<noteq> [] \<and> hd (queue a) = exMsg 0" .
  have h1: "0 < length (tasks (exQ 2)) \<and> tasks (exQ 2) ! 0 = AwaitInvoke 0 ?k (exMsg 0) \<and>
      actors (exQ 2) ?k = Some (exActor True [exMsg 0, exMsg 1]) \<and>
      envelopeMode exEnv \<noteq> Some ''wait'' \<and> envelopeMode exEnv \<noteq> Some ''reject''"
    using t a by (simp add: envelopeMode_def exEnv_def)
  note p1 = th1 [THEN conjunct2, THEN conjunct2, THEN conjunct2, THEN conjunct2, THEN conjunct1,
      rule_format, OF h1, where now = 6]
  have q1: "tl (queue (exActor True [exMsg 0, exMsg 1])) = [exMsg 1]"
    by (simp add: exActor_def)
  have w3: "tasks (step (InvokeSettled 0 (Ok exEnv) 6) (exQ 2)) = [AwaitInvoke 0 ?k (exMsg 1)]"
    "map messageId (invokeLog (step (InvokeSettled 0 (Ok exEnv) 6) (exQ 2)) ?k) = [0, 1]"
    using p1 l(1) unfolding q1 by (simp_all add: exMsg_def)
  have e2: "run [InvokeSettled 0 (Ok exWaitEnv) 6, PersistSettled 0 7] (exQ 2) = exW2"
    by (simp add: exW_steps)
  have f2: "tasks exW2 = [Finished]" "invokeLog exW2 ?k = [exMsg 0]"
    "actors exW2 ?k = Some (exActor False [exMsg 1])"
    by (simp_all add: exW2_def)
  have h2: "0 < length (tasks exW2) \<and> tasks exW2 ! 0 = Finished \<and> firstPending exW2 0 \<and>
      actorOrder exW2 ! 0 = ?k \<and> actors exW2 ?k = Some (exActor False [exMsg 1])"
    by (simp add: exW2_def firstPending_def pendingAt_def exActor_def)
  note p2 = th2 [THEN conjunct2, THEN conjunct2, THEN conjunct2, THEN conjunct2, THEN conjunct2,
      rule_format, OF h2, where now = 8]
  have q2: "hd (queue (exActor False [exMsg 1])) = exMsg 1"
    by (simp add: exActor_def)
  have w4: "map messageId (invokeLog exW2 ?k) = [0]"
    "tasks (step (Finally 0 8) exW2) = [AwaitInvoke 0 ?k (exMsg 1)]"
    "map messageId (invokeLog (step (Finally 0 8) exW2) ?k) = [0, 1]"
    using p2 f2(2) unfolding q2 by (simp_all add: exMsg_def)
  show ?thesis
    using reachable_init [of "[]"] r reachable_exW2 w0 t l w1 w2 w3 e2 f2(1) w4
    by (intro conjI)
qed

text \<open>C2 at the Router with a hundred messages queued for \<^verbatim>\<open>room:r1\<close>: one more is
  refused, and is admitted once the actor has answered the first.\<close>

theorem queue_limit_backpressure_witness:
  "reachable (exQ 100) \<and>
   actors (exQ 100) (routeKey exBody) = Some (exActor True (map exMsg [0..<100])) \<and>
   length (queue (exActor True (map exMsg [0..<100]))) =
     queueLimit (policy (exActor True (map exMsg [0..<100]))) \<and>
   handleRoute (Some exBody) 5 (exQ 100) = (Some (Resp 429 (ErrBody QueueIsFull)), exQ 100) \<and>
   (\<exists>a'. actors (step (InvokeSettled 0 (Ok exEnv) 6) (exQ 100)) (routeKey exBody) = Some a' \<and>
      length (queue a') < queueLimit (policy a') \<and>
      fst (handleRoute (Some exBody) 5 (step (InvokeSettled 0 (Ok exEnv) 6) (exQ 100))) = None)"
proof -
  have r: "reachable (exQ 100)" by (rule reachable_exQ) simp_all
  have a: "actors (exQ 100) (routeKey exBody) = Some (exActor True (map exMsg [0..<100]))"
    by (simp add: exBody_simps exQ_fields)
  have p: "payloadSize (body_payload exBody)
      \<le> maxPayloadBytes (policy (exActor True (map exMsg [0..<100])))"
    by (simp add: exBody_simps payloadSize_def exActor_def default_policy_def)
  have f: "length (queue (exActor True (map exMsg [0..<100]))) =
     queueLimit (policy (exActor True (map exMsg [0..<100])))"
    by (simp add: exActor_def default_policy_def)
  have t: "0 < length (tasks (exQ 100)) \<and>
      tasks (exQ 100) ! 0 = AwaitInvoke 0 (routeKey exBody) (exMsg 0) \<and> Ok exEnv \<noteq> Threw"
    by (simp add: exQ_fields exBody_simps)
  note th = queue_limit_backpressure [OF r a p, of 5]
  from th have 1: "handleRoute (Some exBody) 5 (exQ 100) =
      (Some (Resp 429 (ErrBody QueueIsFull)), exQ 100)"
    using f by blast
  from th t have "\<exists>a'. actors (step (InvokeSettled 0 (Ok exEnv) 6) (exQ 100)) (routeKey exBody)
        = Some a' \<and>
      length (queue a') < queueLimit (policy a') \<and>
      handleRoute (Some exBody) 5 (step (InvokeSettled 0 (Ok exEnv) 6) (exQ 100)) =
        (None, enqueue (routeKey exBody) a' (body_payload exBody) 5
                 (step (InvokeSettled 0 (Ok exEnv) 6) (exQ 100)))"
    by blast
  then have 2: "\<exists>a'. actors (step (InvokeSettled 0 (Ok exEnv) 6) (exQ 100)) (routeKey exBody)
        = Some a' \<and>
      length (queue a') < queueLimit (policy a') \<and>
      fst (handleRoute (Some exBody) 5 (step (InvokeSettled 0 (Ok exEnv) 6) (exQ 100))) = None"
    by auto
  show ?thesis using r a f 1 2 by blast
qed

text \<open>C4 at the Router with one message routed to \<^verbatim>\<open>room:r1\<close> and sent to the actor:
  the route call times out, then the actor answers and the drain cycle ends.\<close>

theorem timeout_discards_result_witness:
  "reachable (exQ 1) \<and> 0 \<in> set (pendingResults (exQ 1)) \<and>
   actors (step (Timeout 0) (exQ 1)) = actors (exQ 1) \<and>
   settled (step (Timeout 0) (exQ 1)) = [(0, Resp 504 (ErrBody ProcessingTimeout))] \<and>
   0 \<notin> set (pendingResults
     (run [InvokeSettled 0 (Ok exEnv) 7, PersistSettled 0 8, Finally 0 9]
        (step (Timeout 0) (exQ 1)))) \<and>
   filter (\<lambda>e. fst e = 0)
     (settled (run [InvokeSettled 0 (Ok exEnv) 7, PersistSettled 0 8, Finally 0 9]
        (step (Timeout 0) (exQ 1)))) = [(0, Resp 504 (ErrBody ProcessingTimeout))]"
proof -
  have r: "reachable (exQ 1)" by (rule reachable_exQ) simp_all
  have p: "0 \<in> set (pendingResults (exQ 1))" by (simp add: exQ_fields)
  have s: "settled (exQ 1) = []" by (simp add: exQ_def)
  note th = timeout_discards_result [OF r p]
  from th have 1: "actors (step (Timeout 0) (exQ 1)) = actors (exQ 1)"
    and 2: "settled (step (Timeout 0) (exQ 1)) = [(0, Resp 504 (ErrBody ProcessingTimeout))]"
    and 3: "\<forall>es. 0 \<notin> set (pendingResults (run es (step (Timeout 0) (exQ 1)))) \<and>
               filter (\<lambda>e. fst e = 0) (settled (run es (step (Timeout 0) (exQ 1)))) =
                 [(0, Resp 504 (ErrBody ProcessingTimeout))]"
    using s by simp_all
  from 3 [rule_format, of "[InvokeSettled 0 (Ok exEnv) 7, PersistSettled 0 8, Finally 0 9]"]
    r p 1 2
  show ?thesis by blast
qed

text \<open>C5, as amended, at the Router of type \<^verbatim>\<open>teacher\<close>: the actor \<^verbatim>\<open>teacher:t1\<close>
  answers with the spawn hint \<^verbatim>\<open>q1\<close>.\<close>

theorem spawn_registers_sibling_witness:
  "reachable exT1 \<and> tasks exT1 ! 0 = AwaitInvoke 0 ''teacher:t1'' (exMsg 0) \<and>
   actors exT1 ''teacher:t1'' = Some (exTActor ''t1'' True [exMsg 0]) \<and>
   actors exT1 ''teacher:q1'' = None \<and>
   actors (step (InvokeSettled 0 (Ok exSpawnEnv) 7) exT1) ''teacher:q1'' =
     Some (exTActor ''q1'' False []) \<and>
   (\<exists>e \<in> set (handleStatus (Some ''teacher:'') (step (InvokeSettled 0 (Ok exSpawnEnv) 7) exT1)).
      st_actorKey e = ''teacher:q1'' \<and> st_queueLength e = 0 \<and> \<not> st_busy e \<and>
      st_fromMemory e) \<and>
   invokeLog (step (InvokeSettled 0 (Ok exSpawnEnv) 7) exT1) ''teacher:q1'' = []"
proof -
  have r: "reachable exT1"
    using reachable_step [OF reachable_init, of "Route (Some exTBody) 0" "[]"]
    by (simp add: exT_steps)
  have t: "0 < length (tasks exT1)" "tasks exT1 ! 0 = AwaitInvoke 0 ''teacher:t1'' (exMsg 0)"
    by (simp_all add: exT1_def)
  have a: "actors exT1 ''teacher:t1'' = Some (exTActor ''t1'' True [exMsg 0])"
    by (simp add: exT1_def)
  have ck: "childKey (exTActor ''t1'' True [exMsg 0]) ''q1'' = ''teacher:q1''"
    by (simp add: childKey_def exTActor_def template_def)
  have c: "''q1'' \<in> set (envelopeSpawn exSpawnEnv)"
    by (simp add: envelopeSpawn_def exSpawnEnv_def)
  have n: "actors exT1 (childKey (exTActor ''t1'' True [exMsg 0]) ''q1'') = None"
    unfolding ck by (simp add: exT1_def)
  have i: "invokeLog exT1 ''teacher:q1'' = []" by (simp add: exT1_def)
  have tm: "template (actorType (exTActor ''t1'' True [exMsg 0])) @ '':'' = ''teacher:''"
    by (simp add: exTActor_def template_def)
  from spawn_registers_sibling [OF r t a c n refl, of 7]
  show ?thesis
    using r t(2) a n i unfolding ck tm by (simp add: exTActor_def)
qed

text \<open>
  C5 as stated fails: after the drain cycle in which \<^verbatim>\<open>teacher:t1\<close> answered with the
  spawn hint \<^verbatim>\<open>q1\<close>, a status call for the prefix \<^verbatim>\<open>question:\<close> on that Router
  lists nothing; the entry that was registered has the key \<^verbatim>\<open>teacher:q1\<close>. (The
  Router of type \<^verbatim>\<open>question\<close> is another instance; nothing was sent to it, and its
  status lists nothing either.)
\<close>

theorem spawn_status_counterexample:
  "handleStatus (Some ''question:'')
     (run [Route (Some exTBody) 0, InvokeSettled 0 (Ok exSpawnEnv) 7, PersistSettled 0 8,
           Finally 0 9] (init [])) = [] \<and>
   actorOrder
     (run [Route (Some exTBody) 0, InvokeSettled 0 (Ok exSpawnEnv) 7, PersistSettled 0 8,
           Finally 0 9] (init [])) = [''teacher:t1'', ''teacher:q1''] \<and>
   handleStatus (Some ''question:'') (init []) = []"
  unfolding exT_run
  by (simp add: handleStatus_def storage_list_def actorValues_def List.map_filter_def
        exT4_def exTActor_def init_def Let_def)


text \<open>C10 at a new Router: a route call for \<^verbatim>\<open>room:r1\<close> with a payload of 65537
  characters.\<close>

theorem route_registers_before_admission_witness:
  "reachable (init []) \<and> actors (init []) (routeKey exBig) = None \<and>
   fst (handleRoute (Some exBig) 0 (init [])) = Some (Resp 413 (ErrBody PayloadTooLarge)) \<and>
   actorOrder (snd (handleRoute (Some exBig) 0 (init []))) = [''room:r1''] \<and>
   (\<exists>e \<in> set (handleStatus None (snd (handleRoute (Some exBig) 0 (init [])))).
      st_actorKey e = ''room:r1'' \<and> st_fromMemory e \<and> st_queueLength e = 0 \<and> \<not> st_busy e)"
proof -
  have k: "routeKey exBig = ''room:r1''"
    by (simp add: routeKey_def exBig_def template_def)
  have n: "actors (init []) (routeKey exBig) = None" by (simp add: init_def)
  have "length exBigText = 65537" by (simp only: exBigText_def length_replicate)
  then have sz: "payloadSize (body_payload exBig) = 65537"
    by (simp add: payloadSize_def exBig_def)
  have h: "fst (handleRoute (Some exBig) 0 (init [])) = Some (Resp 413 (ErrBody PayloadTooLarge))"
    by (simp add: handleRoute_def lookupOrCreate_def n sz freshActorState_def default_policy_def)
  have o: "actorOrder (init []) = []" by (simp add: init_def)
  from route_registers_before_admission [OF reachable_init n prod.collapse [symmetric], of 0] h
  have "actorOrder (snd (handleRoute (Some exBig) 0 (init []))) = [''room:r1''] \<and>
    (\<forall>q. prefix (case q of None \<Rightarrow> [] | Some p \<Rightarrow> p) (routeKey exBig) \<longrightarrow>
       (\<exists>e \<in> set (handleStatus q (snd (handleRoute (Some exBig) 0 (init [])))).
          st_actorKey e = routeKey exBig \<and> st_fromMemory e \<and> st_queueLength e = 0 \<and>
          \<not> st_busy e))"
    by (simp add: k o)
  then have "actorOrder (snd (handleRoute (Some exBig) 0 (init []))) = [''room:r1''] \<and>
      (\<exists>e \<in> set (handleStatus None (snd (handleRoute (Some exBig) 0 (init [])))).
          st_actorKey e = routeKey exBig \<and> st_fromMemory e \<and> st_queueLength e = 0 \<and>
          \<not> st_busy e)"
    by (metis Nil_prefix option.simps(4))
  then show ?thesis using reachable_init n h k by simp
qed

section \<open>The persisted busy flag\<close>

text \<open>
  C3 fails on the code. \<^verbatim>\<open>persistActorState\<close> is called inside the \<^verbatim>\<open>try\<close> block of
  \<^verbatim>\<open>processActorQueue\<close>, before \<^verbatim>\<open>finally\<close> clears \<^verbatim>\<open>busy\<close>: one message is routed to
  \<^verbatim>\<open>room:r1\<close>, the actor answers, the metadata is written and the drain cycle ends. The
  snapshot in the store then says \<^verbatim>\<open>busy = true\<close> (with queue length 0 and the time
  stamp 7), while the entry in memory is idle.
\<close>

theorem persisted_snapshot_busy_true:
  "storage (run [Route (Some exBody) 0, InvokeSettled 0 (Ok exEnv) 7, PersistSettled 0 8,
                 Finally 0 9] (init [])) =
     [(''meta:room:r1'',
       \<lparr>meta_busy = True, meta_queueLength = 0, meta_actorType = Some ''room'',
        meta_actorId = Some ''r1'', meta_updatedAt = 7\<rparr>)] \<and>
   actors (run [Route (Some exBody) 0, InvokeSettled 0 (Ok exEnv) 7, PersistSettled 0 8,
                 Finally 0 9] (init [])) ''room:r1'' = Some (exActor False []) \<and>
   tasks (run [Route (Some exBody) 0, InvokeSettled 0 (Ok exEnv) 7, PersistSettled 0 8,
                 Finally 0 9] (init [])) = []"
proof -
  let ?m = "\<lparr>meta_busy = True, meta_queueLength = 0, meta_actorType = Some ''room'',
        meta_actorId = Some ''r1'', meta_updatedAt = 7\<rparr>"
  let ?s2 = "\<lparr>actorOrder = [''room:r1''],
     actors = [''room:r1'' \<mapsto> exActor True []],
     pendingResults = [], isDraining = True, storage = [(''meta:room:r1'', ?m)],
     tasks = [AwaitPersist 0 ''room:r1''], nextUuid = 1,
     enqueueLog = (\<lambda>_. [])(''room:r1'' := [exMsg 0]),
     invokeLog = (\<lambda>_. [])(''room:r1'' := [exMsg 0]),
     settled = [(0, Resp 200 (OkBody (Some ''1'') ''room:r1''))], resetLog = []\<rparr>"
  have 2: "step (InvokeSettled 0 (Ok exEnv) 7) (exQ 1) = ?s2"
    by (simp add: step_def settleInvoke_def exQ_def exActor_def exEnv_def
        envelopeSpawn_def envelopeMode_def settle_def whileLoop_def persistActorState_def
        exMsg_def Let_def)
  have 3: "step (PersistSettled 0 8) ?s2 = ?s2\<lparr>actors := [''room:r1'' \<mapsto> exActor False []],
      tasks := [Finished]\<rparr>"
    by (simp add: step_def settlePersist_def exActor_def drainLoop.simps Let_def)
  have 4: "step (Finally 0 9) (?s2\<lparr>actors := [''room:r1'' \<mapsto> exActor False []],
      tasks := [Finished]\<rparr>) = ?s2\<lparr>actors := [''room:r1'' \<mapsto> exActor False []],
      tasks := [], isDraining := False\<rparr>"
    by (simp add: step_def finallyCallback_def hasPendingWork_def exActor_def Let_def)
  show ?thesis
    unfolding run.simps exQ_first 2 3 4 by simp
qed

section \<open>Admin reset\<close>

lemma adminResetLoop_storage:
  "storage (adminResetLoop ks s) = filter (\<lambda>e. fst e \<notin> set ks) (storage s)"
  by (induction ks arbitrary: s) (auto simp: storage_delete_def Let_def intro: filter_cong)

lemma adminResetLoop_resetLog:
  "resetLog (adminResetLoop ks s) = resetLog s @ map (drop (length ''meta:'')) ks"
  by (induction ks arbitrary: s) (auto simp: Let_def)

text \<open>
  C9, as amended. The \<^verbatim>\<open>cleared\<close> list of an admin reset is the list of the storage keys
  listed under \<^verbatim>\<open>"meta:" + actorTypePrefix\<close>, each still carrying its \<^verbatim>\<open>meta:\<close>
  prefix; exactly these entries are deleted from the store, and the actors asked to reset
  are these keys with the prefix stripped.
\<close>

theorem adminReset_cleared_storage_keys:
  "adminReset p s = (r, s') \<Longrightarrow>
     ok r \<and>
     cleared r =
       map fst (storage_list (''meta:'' @ (case p of None \<Rightarrow> [] | Some x \<Rightarrow> x)) (storage s)) \<and>
     (\<forall>key \<in> set (cleared r). prefix ''meta:'' key \<and> key \<in> fst ` set (storage s)) \<and>
     storage s' = filter (\<lambda>e. fst e \<notin> set (cleared r)) (storage s) \<and>
     resetLog s' = resetLog s @ map (drop (length ''meta:'')) (cleared r)"
  by (auto simp: adminReset_def Let_def adminResetLoop_storage adminResetLoop_resetLog
        storage_list_def prefix_def)

theorem adminReset_cleared_storage_keys_witness:
  "cleared (fst (adminReset (Some ''room:'') (init [(''meta:room:r1'', exMeta)])))
     = [''meta:room:r1''] \<and>
   storage (snd (adminReset (Some ''room:'') (init [(''meta:room:r1'', exMeta)]))) = [] \<and>
   resetLog (snd (adminReset (Some ''room:'') (init [(''meta:room:r1'', exMeta)])))
     = [''room:r1'']"
  using adminReset_cleared_storage_keys [of "Some ''room:''" "init [(''meta:room:r1'', exMeta)]"
      "fst (adminReset (Some ''room:'') (init [(''meta:room:r1'', exMeta)]))"
      "snd (adminReset (Some ''room:'') (init [(''meta:room:r1'', exMeta)]))"]
  by (simp add: init_def storage_list_def)

text \<open>
  C9 as stated fails: with the single entry \<^verbatim>\<open>meta:room:r1\<close> in the store, the
  \<^verbatim>\<open>cleared\<close> list of \<^verbatim>\<open>adminReset("room:")\<close> is not the list of the actor key
  \<^verbatim>\<open>room:r1\<close>.
\<close>

theorem adminReset_cleared_counterexample:
  "cleared (fst (adminReset (Some ''room:'') (init [(''meta:room:r1'', exMeta)])))
     \<noteq> [''room:r1'']"
  by (simp add: adminReset_def init_def storage_list_def Let_def)

section \<open>Validation of actorType and actorId\<close>

text \<open>
  C7, as amended. The check of \<^verbatim>\<open>actorType\<close> and \<^verbatim>\<open>actorId\<close> is made by the Worker:
  when one of them is missing or empty, \<^verbatim>\<open>POST /invoke\<close> answers 400 at once and no
  Router is called, so every Router is left as it was.
\<close>

theorem workerInvoke_validates:
  "falsy (body_actorType b) \<or> falsy (body_actorId b) \<Longrightarrow>
     workerInvoke (Some b) now routers =
       (Some (Resp 400 (Text ''actorType and actorId are required'')), routers)"
  by (simp add: workerInvoke_def)

theorem workerInvoke_validates_witness:
  "falsy (body_actorType
       \<lparr>body_actorType = None, body_actorId = Some ''a1'', body_payload = Falsy\<rparr>) \<and>
   workerInvoke
       (Some \<lparr>body_actorType = None, body_actorId = Some ''a1'', body_payload = Falsy\<rparr>)
       0 (\<lambda>_. init []) =
     (Some (Resp 400 (Text ''actorType and actorId are required'')), (\<lambda>_. init []))"
  using workerInvoke_validates
    [of "\<lparr>body_actorType = None, body_actorId = Some ''a1'', body_payload = Falsy\<rparr>"
        0 "\<lambda>_. init []"]
  by (simp add: falsy_def)

text \<open>
  C7 as stated fails: the Router's \<^verbatim>\<open>handleRoute\<close>, given a body without
  \<^verbatim>\<open>actorType\<close>, returns no error; it creates an entry for the key \<^verbatim>\<open>undefined:a1\<close>
  and enqueues the message there.
\<close>

theorem handleRoute_missing_actorType_counterexample:
  "fst (handleRoute
          (Some \<lparr>body_actorType = None, body_actorId = Some ''a1'', body_payload = Falsy\<rparr>)
          0 (init [])) = None \<and>
   actorOrder (snd (handleRoute
          (Some \<lparr>body_actorType = None, body_actorId = Some ''a1'', body_payload = Falsy\<rparr>)
          0 (init []))) = [''undefined:a1''] \<and>
   map_option (\<lambda>a. map messageId (queue a))
     (actors (snd (handleRoute
          (Some \<lparr>body_actorType = None, body_actorId = Some ''a1'', body_payload = Falsy\<rparr>)
          0 (init []))) ''undefined:a1'') = Some [0]"
  by (simp add: handleRoute_def lookupOrCreate_def enqueue_def routeKey_def init_def
        template_def freshActorState_def payloadSize_def default_policy_def
        triggerDraining_def drainLoop.simps processActorQueue_def whileLoop_def Let_def)

section \<open>Actor memory\<close>

lemma actorFetch_loads:
  "loads (snd (actorFetch r a)) =
     (if initialized a \<or> r = AdminResetReq \<or> r = OtherReq then loads a else Suc (loads a))"
  by (cases r)
     (auto simp: actorFetch_def ensureInitialized_def Let_def split: option.splits prod.splits)

lemma actorFetch_initialized:
  "initialized (snd (actorFetch r a)) =
     (if r = AdminResetReq then False else if r = OtherReq then initialized a else True)"
  by (cases r)
     (auto simp: actorFetch_def ensureInitialized_def Let_def split: option.splits prod.splits)

lemma runActor_loads:
  "loads (runActor rs a) \<le>
     loads a + (if initialized a then 0 else 1) + length (filter (\<lambda>r. r = AdminResetReq) rs)"
proof (induction rs arbitrary: a)
  case Nil
  then show ?case by simp
next
  case (Cons r rs)
  have "loads (runActor rs (snd (actorFetch r a)))
      \<le> loads (snd (actorFetch r a)) + (if initialized (snd (actorFetch r a)) then 0 else 1)
        + length (filter (\<lambda>r. r = AdminResetReq) rs)"
    by (rule Cons.IH)
  then show ?case
    by (simp add: actorFetch_loads actorFetch_initialized split: if_splits)
qed

lemma exHandleMessage_eval:
  "handleMessage exHandlers (ib_payload exInvokeBody)
     \<lparr>ctx_actorType = ib_actorType exInvokeBody, ctx_actorId = ib_actorId exInvokeBody,
      ctx_now = 7\<rparr> [] =
     (exMemory,
      Some \<lparr>ir_result = HandlerResult ''ok'', ir_nextPolicy = immediate, ir_spawn = []\<rparr>)"
  by (simp add: exInvokeBody_def handleMessage_def exHandlers_def getProp_def exMemory_def
       Let_def)

text \<open>
  C8. An activation reads its memory from the durable store at most once, and once more
  after each admin reset, which marks it as not initialised; the memory it reads is the
  stored object, or the empty object when nothing is stored. An invoke runs
  \<^verbatim>\<open>handleMessage\<close> on the loaded memory: when that returns, the invoke answers with its
  result and the memory as \<^verbatim>\<open>handleMessage\<close> left it is both the cache and the stored
  object, so that a new activation over that store (the cache discarded) loads exactly
  this memory and its status shows it; when \<^verbatim>\<open>handleMessage\<close> throws, the invoke fails
  and nothing is written to the store. Every invoke that returns leaves the store equal to
  the cache.
\<close>

theorem actor_memory_roundtrip:
  "loads (runActor rs (activate st)) \<le> 1 + length (filter (\<lambda>r. r = AdminResetReq) rs) \<and>
   memory (ensureInitialized (activate st)) = Some (case st of None \<Rightarrow> [] | Some m \<Rightarrow> m) \<and>
   (\<forall>b hs now a mem mem' r.
      memory (ensureInitialized a) = Some mem \<and>
      handleMessage hs (ib_payload b)
        \<lparr>ctx_actorType = ib_actorType b, ctx_actorId = ib_actorId b, ctx_now = now\<rparr> mem
        = (mem', Some r) \<longrightarrow>
      actorFetch (InvokeReq b hs now) a =
        (Inr (InvokeReply r),
         (ensureInitialized a)\<lparr>memory := Some mem', actorStorage := Some mem'\<rparr>) \<and>
      memory (ensureInitialized
        (activate (actorStorage (snd (actorFetch (InvokeReq b hs now) a))))) = Some mem' \<and>
      fst (actorFetch StatusReq
        (activate (actorStorage (snd (actorFetch (InvokeReq b hs now) a)))))
        = Inr (StatusReply mem')) \<and>
   (\<forall>b hs now a mem mem'.
      memory (ensureInitialized a) = Some mem \<and>
      handleMessage hs (ib_payload b)
        \<lparr>ctx_actorType = ib_actorType b, ctx_actorId = ib_actorId b, ctx_now = now\<rparr> mem
        = (mem', None) \<longrightarrow>
      actorFetch (InvokeReq b hs now) a =
        (Inl (), (ensureInitialized a)\<lparr>memory := Some mem'\<rparr>) \<and>
      actorStorage (snd (actorFetch (InvokeReq b hs now) a)) = actorStorage a) \<and>
   (\<forall>b hs now a r a'. actorFetch (InvokeReq b hs now) a = (Inr r, a') \<longrightarrow>
      memory a' \<noteq> None \<and> actorStorage a' = memory a' \<and>
      memory (ensureInitialized (activate (actorStorage a'))) = memory a')"
proof (intro conjI allI impI)
  show "loads (runActor rs (activate st)) \<le> 1 + length (filter (\<lambda>r. r = AdminResetReq) rs)"
    using runActor_loads [of rs "activate st"] by (simp add: activate_def)
  show "memory (ensureInitialized (activate st)) = Some (case st of None \<Rightarrow> [] | Some m \<Rightarrow> m)"
    by (simp add: ensureInitialized_def activate_def)
next
  fix b :: invoke_body and hs now a mem mem' r
  assume h: "memory (ensureInitialized a) = Some mem \<and>
      handleMessage hs (ib_payload b)
        \<lparr>ctx_actorType = ib_actorType b, ctx_actorId = ib_actorId b, ctx_now = now\<rparr> mem
        = (mem', Some r)"
  then show f: "actorFetch (InvokeReq b hs now) a =
        (Inr (InvokeReply r),
         (ensureInitialized a)\<lparr>memory := Some mem', actorStorage := Some mem'\<rparr>)"
    by (simp add: actorFetch_def Let_def)
  show "memory (ensureInitialized
        (activate (actorStorage (snd (actorFetch (InvokeReq b hs now) a))))) = Some mem'"
    unfolding f by (simp add: ensureInitialized_def activate_def)
  show "fst (actorFetch StatusReq
        (activate (actorStorage (snd (actorFetch (InvokeReq b hs now) a)))))
        = Inr (StatusReply mem')"
    unfolding f by (simp add: actorFetch_def ensureInitialized_def activate_def Let_def)
next
  fix b :: invoke_body and hs now a mem mem'
  assume h: "memory (ensureInitialized a) = Some mem \<and>
      handleMessage hs (ib_payload b)
        \<lparr>ctx_actorType = ib_actorType b, ctx_actorId = ib_actorId b, ctx_now = now\<rparr> mem
        = (mem', None)"
  then show f: "actorFetch (InvokeReq b hs now) a =
        (Inl (), (ensureInitialized a)\<lparr>memory := Some mem'\<rparr>)"
    by (simp add: actorFetch_def Let_def)
  show "actorStorage (snd (actorFetch (InvokeReq b hs now) a)) = actorStorage a"
    unfolding f by (simp add: ensureInitialized_def)
next
  fix b :: invoke_body and hs now a r a'
  assume h: "actorFetch (InvokeReq b hs now) a = (Inr r, a')"
  then obtain mem' where m: "memory a' = Some mem'" "actorStorage a' = Some mem'"
    by (auto simp: actorFetch_def Let_def split: option.splits prod.splits)
  show "memory a' \<noteq> None" using m by simp
  show "actorStorage a' = memory a'" using m by simp
  show "memory (ensureInitialized (activate (actorStorage a'))) = memory a'"
    using m by (simp add: ensureInitialized_def activate_def)
qed

text \<open>C8 at a new activation of \<^verbatim>\<open>room:r1\<close> with an empty store: the handler sets
  \<^verbatim>\<open>roomName\<close>; the invoke answers, the memory it leaves is stored, and a second
  activation loads it.\<close>

theorem actor_memory_roundtrip_witness:
  "memory (ensureInitialized (activate None)) = Some [] \<and>
   handleMessage exHandlers (ib_payload exInvokeBody)
     \<lparr>ctx_actorType = ib_actorType exInvokeBody, ctx_actorId = ib_actorId exInvokeBody,
      ctx_now = 7\<rparr> [] =
     (exMemory,
      Some \<lparr>ir_result = HandlerResult ''ok'', ir_nextPolicy = immediate, ir_spawn = []\<rparr>) \<and>
   actorFetch (InvokeReq exInvokeBody exHandlers 7) (activate None) =
     (Inr (InvokeReply
        \<lparr>ir_result = HandlerResult ''ok'', ir_nextPolicy = immediate, ir_spawn = []\<rparr>),
      \<lparr>memory = Some exMemory, initialized = True, actorStorage = Some exMemory, loads = 1\<rparr>) \<and>
   memory (ensureInitialized (activate (Some exMemory))) = Some exMemory \<and>
   fst (actorFetch StatusReq (activate (Some exMemory))) = Inr (StatusReply exMemory) \<and>
   getProp exMemory ''roomName'' = JStr ''n'' \<and>
   loads (runActor [InvokeReq exInvokeBody exHandlers 7, InvokeReq exInvokeBody exHandlers 8]
            (activate None)) \<le> 1"
proof -
  note th = actor_memory_roundtrip
    [of "[InvokeReq exInvokeBody exHandlers 7, InvokeReq exInvokeBody exHandlers 8]" None]
  have m0: "memory (ensureInitialized (activate None)) = Some []"
    by (simp add: ensureInitialized_def activate_def)
  from th have l: "loads (runActor [InvokeReq exInvokeBody exHandlers 7,
       InvokeReq exInvokeBody exHandlers 8] (activate None)) \<le> 1"
    by simp
  from th have "\<forall>b hs now a mem mem' r.
      memory (ensureInitialized a) = Some mem \<and>
      handleMessage hs (ib_payload b)
        \<lparr>ctx_actorType = ib_actorType b, ctx_actorId = ib_actorId b, ctx_now = now\<rparr> mem
        = (mem', Some r) \<longrightarrow>
      actorFetch (InvokeReq b hs now) a =
        (Inr (InvokeReply r),
         (ensureInitialized a)\<lparr>memory := Some mem', actorStorage := Some mem'\<rparr>) \<and>
      memory (ensureInitialized
        (activate (actorStorage (snd (actorFetch (InvokeReq b hs now) a))))) = Some mem' \<and>
      fst (actorFetch StatusReq
        (activate (actorStorage (snd (actorFetch (InvokeReq b hs now) a)))))
        = Inr (StatusReply mem')"
    by (elim conjE) assumption
  note c = this [rule_format, of "activate None" "[]" exHandlers exInvokeBody 7 exMemory
      "\<lparr>ir_result = HandlerResult ''ok'', ir_nextPolicy = immediate, ir_spawn = []\<rparr>",
      OF conjI [OF m0 exHandleMessage_eval]]
  note f = c [THEN conjunct1]
  note g = c [THEN conjunct2, THEN conjunct1]
  note h = c [THEN conjunct2, THEN conjunct2]
  have f': "actorFetch (InvokeReq exInvokeBody exHandlers 7) (activate None) =
     (Inr (InvokeReply
        \<lparr>ir_result = HandlerResult ''ok'', ir_nextPolicy = immediate, ir_spawn = []\<rparr>),
      \<lparr>memory = Some exMemory, initialized = True, actorStorage = Some exMemory, loads = 1\<rparr>)"
    unfolding f by (simp add: ensureInitialized_def activate_def)
  have st: "actorStorage (snd (actorFetch (InvokeReq exInvokeBody exHandlers 7) (activate None)))
      = Some exMemory"
    unfolding f' by simp
  have p: "getProp exMemory ''roomName'' = JStr ''n''"
    by (simp add: getProp_def exMemory_def)
  show ?thesis
    using m0 exHandleMessage_eval f' g h p l unfolding st by (intro conjI)
qed

end
